theory Spec2Isabelle
  imports Complex_Main "HOL-Library.Multiset"
begin

unbundle bit_operations_syntax

section \<open>Python values and errors\<close>

text \<open>
  The exceptions that the modelled code can raise. \<open>ValueError_name_used\<close> and
  \<open>ValueError_ordering_overlap\<close> are the two \<^verbatim>\<open>ValueError\<close>s of
  \<^verbatim>\<open>CSRFieldAggregate\<close>, each carrying the field name that is formatted into the
  message; \<open>ValueError_no_name\<close> is the one of \<^verbatim>\<open>_CSRBase.__init__\<close>;
  \<open>ValueError_negative_shift\<close> is Python's own for \<^verbatim>\<open>x << n\<close> and \<^verbatim>\<open>x >> n\<close>
  with \<open>n < 0\<close>.
\<close>

datatype error =
    ValueError_no_name
  | ValueError_name_used string
  | ValueError_ordering_overlap string
  | ValueError_negative_shift
  | ZeroDivisionError
  | UnboundLocalError
  | AssertionError
  | TypeError
  | AttributeError
  | IndexError

text \<open>\<^verbatim>\<open>range(n)\<close> (empty for \<open>n \<le> 0\<close>) and \<^verbatim>\<open>reversed\<close>.\<close>

definition range :: "int \<Rightarrow> int list" where
  "range n = map int [0..<nat n]"

definition reversed :: "'a list \<Rightarrow> 'a list" where
  "reversed xs = rev xs"

text \<open>\<^verbatim>\<open>str(i)\<close> for an integer: decimal digits, with a sign when negative.\<close>

fun str_nat :: "nat \<Rightarrow> string" where
  "str_nat n =
     (if n < 10 then [char_of (48 + n)]
      else str_nat (n div 10) @ [char_of (48 + n mod 10)])"

declare str_nat.simps [simp del]

definition str :: "int \<Rightarrow> string" where
  "str i = (if i < 0 then CHR ''-'' # str_nat (nat (- i)) else str_nat (nat i))"

text \<open>\<^verbatim>\<open>int.bit_length()\<close>: the number of binary digits of the absolute value.\<close>

fun bit_length_nat :: "nat \<Rightarrow> nat" where
  "bit_length_nat n = (if n = 0 then 0 else Suc (bit_length_nat (n div 2)))"

declare bit_length_nat.simps [simp del]

definition bit_length :: "int \<Rightarrow> int" where
  "bit_length k = int (bit_length_nat (nat \<bar>k\<bar>))"

section \<open>The hardware description primitives used by the register classes\<close>

text \<open>
  The register classes build their logic from the primitives of the hardware description
  library they import (\<^verbatim>\<open>from migen import *\<close>): signals of a declared width,
  slices, \<^verbatim>\<open>Cat\<close>, \<^verbatim>\<open>Replicate\<close>, constants, and conditional assignments that are
  either combinatorial (\<^verbatim>\<open>self.comb\<close>) or clocked (\<^verbatim>\<open>self.sync\<close>). The
  expressions and statements below are the ones that occur in the modelled methods; their
  meaning is the library's: \<^verbatim>\<open>Cat\<close> puts its first argument in the low bits, a slice
  \<^verbatim>\<open>v[lo:hi]\<close> normalises its bounds like a Python slice, an assignment truncates or
  zero-extends to the width of its target, and all clocked statements read the values
  before the clock edge, a later statement overriding an earlier one.
\<close>

text \<open>
  \<^verbatim>\<open>log2_int(n, need_pow2=False)\<close> and \<^verbatim>\<open>bits_for(n, require_sign_bit=False)\<close> of the
  library: \<^verbatim>\<open>r = (n - 1).bit_length()\<close> for \<open>n \<noteq> 0\<close>; \<^verbatim>\<open>bits_for\<close> takes
  \<^verbatim>\<open>log2_int(n + 1, False)\<close> for positive \<open>n\<close>, and \<^verbatim>\<open>log2_int(-n, False) + 1\<close>
  otherwise (a sign bit is then always counted). Every call passes \<^verbatim>\<open>need_pow2=False\<close>,
  which switches the power-of-two check of \<^verbatim>\<open>log2_int\<close> off.
\<close>

definition log2_int :: "int \<Rightarrow> int" where
  "log2_int n = (if n = 0 then 0 else bit_length (n - 1))"

definition bits_for :: "int \<Rightarrow> bool \<Rightarrow> int" where
  "bits_for n require_sign_bit =
     (if n > 0 then log2_int (n + 1) + (if require_sign_bit then 1 else 0)
      else log2_int (- n) + 1)"

text \<open>
  The signals of one register: those of \<^verbatim>\<open>CSRStatus\<close> and \<^verbatim>\<open>CSRStorage\<close>, the
  back-buffer, and the three signals \<^verbatim>\<open>re\<close>, \<^verbatim>\<open>r\<close>, \<^verbatim>\<open>w\<close> of the simple
  \<^verbatim>\<open>CSR\<close> created for word \<open>i\<close> of the register.
\<close>

datatype signal =
    status | storage_full | storage | backstore | re | we | dat_w
  | sc_re int | sc_r int | sc_w int

datatype expr =
    Sig signal
  | Slice expr int int
  | Cat expr expr
  | Replicate expr int
  | Constant int
  | Shl expr int

datatype target = Whole signal | Part signal int int

datatype stmt = Assign target expr | If_then expr stmt

text \<open>
  \<^verbatim>\<open>slice(lo, hi).indices(n)\<close>: a negative bound counts from the end, and both bounds are
  clamped to \<open>0..n\<close>.
\<close>

definition slice_index :: "nat \<Rightarrow> int \<Rightarrow> nat" where
  "slice_index n x = nat (if x < 0 then max 0 (x + int n) else min x (int n))"

fun width_of :: "(signal \<Rightarrow> nat) \<Rightarrow> expr \<Rightarrow> nat" where
  "width_of w (Sig s) = w s"
| "width_of w (Slice e lo hi) =
     slice_index (width_of w e) hi - slice_index (width_of w e) lo"
| "width_of w (Cat a b) = width_of w a + width_of w b"
| "width_of w (Replicate e n) = width_of w e * nat n"
| "width_of w (Constant c) = nat (bits_for c False)"
| "width_of w (Shl e n) = width_of w e + 2 ^ nat (bits_for n False) - 1"

fun repeat_bits :: "nat \<Rightarrow> nat \<Rightarrow> nat \<Rightarrow> nat" where
  "repeat_bits v l 0 = 0"
| "repeat_bits v l (Suc n) = v OR push_bit l (repeat_bits v l n)"

fun value_of :: "(signal \<Rightarrow> nat) \<Rightarrow> (signal \<Rightarrow> nat) \<Rightarrow> expr \<Rightarrow> nat" where
  "value_of w env (Sig s) = take_bit (w s) (env s)"
| "value_of w env (Slice e lo hi) =
     take_bit (slice_index (width_of w e) hi - slice_index (width_of w e) lo)
       (drop_bit (slice_index (width_of w e) lo) (value_of w env e))"
| "value_of w env (Cat a b) = value_of w env a OR push_bit (width_of w a) (value_of w env b)"
| "value_of w env (Replicate e n) = repeat_bits (value_of w env e) (width_of w e) (nat n)"
| "value_of w env (Constant c) = nat c"
| "value_of w env (Shl e n) = push_bit (nat n) (value_of w env e)"

text \<open>Bits \<open>[a, b)\<close> of \<open>old\<close> replaced by the low \<open>b - a\<close> bits of \<open>v\<close>.\<close>

definition splice :: "nat \<Rightarrow> nat \<Rightarrow> nat \<Rightarrow> nat \<Rightarrow> nat" where
  "splice old a b v =
     take_bit a old OR push_bit a (take_bit (b - a) v) OR push_bit (max a b) (drop_bit (max a b) old)"

fun assign :: "(signal \<Rightarrow> nat) \<Rightarrow> target \<Rightarrow> nat \<Rightarrow> (signal \<Rightarrow> nat) \<Rightarrow> (signal \<Rightarrow> nat)" where
  "assign w (Whole s) v nxt = nxt(s := take_bit (w s) v)"
| "assign w (Part s lo hi) v nxt =
     nxt(s := splice (nxt s) (slice_index (w s) lo) (slice_index (w s) hi) v)"

fun exec :: "(signal \<Rightarrow> nat) \<Rightarrow> (signal \<Rightarrow> nat) \<Rightarrow> stmt \<Rightarrow> (signal \<Rightarrow> nat) \<Rightarrow> (signal \<Rightarrow> nat)" where
  "exec w cur (Assign t e) nxt = assign w t (value_of w cur e) nxt"
| "exec w cur (If_then c s) nxt = (if value_of w cur c \<noteq> 0 then exec w cur s nxt else nxt)"

text \<open>
  One clock edge over the clocked statements, and one evaluation of the combinatorial
  ones: every right-hand side and condition is read in \<open>cur\<close>.
\<close>

definition step :: "(signal \<Rightarrow> nat) \<Rightarrow> stmt list \<Rightarrow> (signal \<Rightarrow> nat) \<Rightarrow> (signal \<Rightarrow> nat)" where
  "step w stmts cur = fold (exec w cur) stmts cur"

text \<open>
  \<^verbatim>\<open>Signal(bits)\<close>: declaring a signal whose width is not strictly positive raises
  \<^verbatim>\<open>TypeError\<close> (the library first builds the reset constant of that width, and a constant
  refuses such a width). Every register class declares signals of its size when it is
  constructed.
\<close>

definition Signal :: "int \<Rightarrow> error + int" where
  "Signal nbits = (if nbits \<le> 0 then Inl TypeError else Inr nbits)"

section \<open>Simple and compound registers\<close>

text \<open>
  \<^verbatim>\<open>CSR(size, name)\<close>: the simple register of one bus word. \<^verbatim>\<open>CSRStatus\<close> and
  \<^verbatim>\<open>CSRStorage\<close> keep the attributes that \<^verbatim>\<open>do_finalize\<close> reads. What
  \<^verbatim>\<open>do_finalize\<close> adds to the module is returned: the simple registers appended to
  \<^verbatim>\<open>simple_csrs\<close>, and the statements added to \<^verbatim>\<open>comb\<close> and \<^verbatim>\<open>sync\<close>, in order.
\<close>

record CSR =
  csr_size :: int
  csr_name :: string

record CSRStatus =
  status_name :: string
  status_size :: int

record CSRStorage =
  storage_name :: string
  storage_size :: int
  alignment_bits :: int
  atomic_write :: bool
  write_from_dev :: bool

record finalized =
  simple_csrs :: "CSR list"
  comb :: "stmt list"
  sync :: "stmt list"

text \<open>
  \<^verbatim>\<open>_CSRBase.__init__(size, name)\<close>; the argument \<open>name\<close> is what
  \<^verbatim>\<open>get_obj_var_name(name)\<close> returned (\<open>None\<close> when no name could be extracted).
\<close>

definition CSRBase_init :: "int \<Rightarrow> string option \<Rightarrow> error + (string \<times> int)" where
  "CSRBase_init size_arg name =
     (case name of None \<Rightarrow> Inl ValueError_no_name | Some n \<Rightarrow> Inr (n, size_arg))"

text \<open>
  \<^verbatim>\<open>CSR.__init__(size, name)\<close>: after \<^verbatim>\<open>_CSRBase.__init__\<close>, the signals \<^verbatim>\<open>r\<close> and
  \<^verbatim>\<open>w\<close> of \<open>size\<close> bits are declared (\<^verbatim>\<open>re\<close> has the default width of one bit).
\<close>

definition CSR_init :: "int \<Rightarrow> string option \<Rightarrow> error + CSR" where
  "CSR_init size_arg name =
     (case CSRBase_init size_arg name of
        Inl e \<Rightarrow> Inl e
      | Inr (n, s) \<Rightarrow>
          (case Signal s of
             Inl e \<Rightarrow> Inl e
           | Inr _ \<Rightarrow> Inr \<lparr>csr_size = s, csr_name = n\<rparr>))"

text \<open>
  A \<^verbatim>\<open>for\<close> loop whose body may raise: the first exception leaves the loop, otherwise
  what the iterations produced is returned in order.
\<close>

fun for_loop :: "('a \<Rightarrow> error + 'b) \<Rightarrow> 'a list \<Rightarrow> error + 'b list" where
  "for_loop body [] = Inr []"
| "for_loop body (x # xs) =
     (case body x of
        Inl e \<Rightarrow> Inl e
      | Inr y \<Rightarrow> (case for_loop body xs of Inl e \<Rightarrow> Inl e | Inr ys \<Rightarrow> Inr (y # ys)))"

subsection \<open>\<^verbatim>\<open>CSRStatus.do_finalize\<close>\<close>

text \<open>The body of the loop of \<^verbatim>\<open>CSRStatus.do_finalize\<close> for word \<open>i\<close>.\<close>

definition status_word :: "CSRStatus \<Rightarrow> int \<Rightarrow> int \<Rightarrow> int \<Rightarrow> error + (CSR \<times> stmt)" where
  "status_word reg busword nwords i =
     (let nbits = min (status_size reg - i * busword) busword
      in case CSR_init nbits
                (Some (if nwords > 1 then status_name reg @ str i else status_name reg)) of
           Inl e \<Rightarrow> Inl e
         | Inr sc \<Rightarrow>
             Inr (sc, Assign (Whole (sc_w i))
                        (Slice (Sig status) (i * busword) (i * busword + nbits))))"

definition CSRStatus_do_finalize :: "CSRStatus \<Rightarrow> int \<Rightarrow> error + finalized" where
  "CSRStatus_do_finalize reg busword =
     (if busword = 0 then Inl ZeroDivisionError
      else
        let nwords = (status_size reg + busword - 1) div busword
        in case for_loop (status_word reg busword nwords) (reversed (range nwords)) of
             Inl e \<Rightarrow> Inl e
           | Inr words \<Rightarrow> Inr \<lparr>simple_csrs = map fst words, comb = map snd words, sync = []\<rparr>)"

subsection \<open>\<^verbatim>\<open>CSRStorage\<close>\<close>

text \<open>
  The clocked statement that \<^verbatim>\<open>CSRStorage.__init__\<close> adds for \<^verbatim>\<open>write_from_dev\<close>;
  it precedes everything \<^verbatim>\<open>do_finalize\<close> adds.
\<close>

definition CSRStorage_init_sync :: "CSRStorage \<Rightarrow> stmt list" where
  "CSRStorage_init_sync reg =
     (if write_from_dev reg
      then [If_then (Sig we) (Assign (Whole storage_full) (Shl (Sig dat_w) (alignment_bits reg)))]
      else [])"

text \<open>The body of the loop of \<^verbatim>\<open>CSRStorage.do_finalize\<close> for word \<open>i\<close>.\<close>

definition storage_word ::
  "CSRStorage \<Rightarrow> int \<Rightarrow> int \<Rightarrow> int \<Rightarrow> error + (CSR \<times> stmt \<times> stmt)" where
  "storage_word reg busword nwords i =
     (let nbits = min (storage_size reg - i * busword) busword
      in case CSR_init nbits
                (Some (if nwords \<noteq> 0 then storage_name reg @ str i else storage_name reg)) of
           Inl e \<Rightarrow> Inl e
         | Inr sc \<Rightarrow>
            (let lo = i * busword;
                 hi = lo + nbits;
                 rd =
                   (if lo \<ge> alignment_bits reg then
                      Assign (Whole (sc_w i)) (Slice (Sig storage_full) lo hi)
                    else if hi > alignment_bits reg then
                      Assign (Whole (sc_w i))
                        (Cat (Replicate (Constant 0) (hi - alignment_bits reg))
                             (Slice (Sig storage_full) (alignment_bits reg) hi))
                    else Assign (Whole (sc_w i)) (Constant 0));
                 wr =
                   (if nwords > 1 \<and> atomic_write reg then
                      (if i \<noteq> 0 then
                         If_then (Sig (sc_re i))
                           (Assign (Part backstore (lo - busword) (hi - busword)) (Sig (sc_r i)))
                       else
                         If_then (Sig (sc_re i))
                           (Assign (Whole storage_full) (Cat (Sig (sc_r i)) (Sig backstore))))
                    else
                      If_then (Sig (sc_re i)) (Assign (Part storage_full lo hi) (Sig (sc_r i))))
             in Inr (sc, rd, wr)))"

text \<open>
  Before the loop the back-buffer is declared, of \<^verbatim>\<open>size - busword\<close> bits, when the
  register spans several words and is written atomically. After the loop,
  \<^verbatim>\<open>self.sync += self.re.eq(sc.re)\<close> reads the loop's last \<^verbatim>\<open>sc\<close>; when the loop
  body never ran, the variable is unbound.
\<close>

definition CSRStorage_do_finalize :: "CSRStorage \<Rightarrow> int \<Rightarrow> error + finalized" where
  "CSRStorage_do_finalize reg busword =
     (if busword = 0 then Inl ZeroDivisionError
      else
        let nwords = (storage_size reg + busword - 1) div busword;
            idx = reversed (range nwords)
        in case (if nwords > 1 \<and> atomic_write reg
                 then Signal (storage_size reg - busword) else Inr 0) of
             Inl e \<Rightarrow> Inl e
           | Inr _ \<Rightarrow>
              (case for_loop (storage_word reg busword nwords) idx of
                 Inl e \<Rightarrow> Inl e
               | Inr words \<Rightarrow>
                   if idx = [] then Inl UnboundLocalError
                   else Inr \<lparr>simple_csrs = map fst words,
                             comb = map (fst \<circ> snd) words,
                             sync = map (snd \<circ> snd) words
                                    @ [Assign (Whole re) (Sig (sc_re (last idx)))]\<rparr>))"

text \<open>The declared widths of the signals of a storage register split over \<open>busword\<close> bits.\<close>

definition storage_widths :: "CSRStorage \<Rightarrow> int \<Rightarrow> signal \<Rightarrow> nat" where
  "storage_widths reg busword s =
     (case s of
        storage_full \<Rightarrow> nat (storage_size reg)
      | storage \<Rightarrow> nat (storage_size reg - alignment_bits reg)
      | backstore \<Rightarrow> nat (storage_size reg - busword)
      | dat_w \<Rightarrow> nat (storage_size reg - alignment_bits reg)
      | sc_r i \<Rightarrow> nat (min (storage_size reg - i * busword) busword)
      | sc_w i \<Rightarrow> nat (min (storage_size reg - i * busword) busword)
      | status \<Rightarrow> 0
      | _ \<Rightarrow> 1)"

text \<open>
  The write statement that the loop body adds for word \<open>j\<close> when \<^verbatim>\<open>nwords > 1\<close> and
  \<^verbatim>\<open>atomic_write\<close> hold (with \<^verbatim>\<open>lo\<close> and \<^verbatim>\<open>hi\<close> written out); it names the
  statements of \<^verbatim>\<open>storage_word\<close> in the atomic case.
\<close>

definition atomic_wr :: "CSRStorage \<Rightarrow> int \<Rightarrow> int \<Rightarrow> stmt" where
  "atomic_wr reg busword j =
     If_then (Sig (sc_re j))
       (if j \<noteq> 0 then
          Assign (Part backstore (j * busword - busword)
                    (j * busword + min (storage_size reg - j * busword) busword - busword))
            (Sig (sc_r j))
        else Assign (Whole storage_full) (Cat (Sig (sc_r j)) (Sig backstore)))"

section \<open>Fields and the field aggregate\<close>

text \<open>
  \<^verbatim>\<open>CSRField\<close>: the attributes that the aggregate reads and writes. \<^verbatim>\<open>offset\<close> and
  \<^verbatim>\<open>access\<close> are optional (\<^verbatim>\<open>None\<close> until the aggregate assigns them); sizes, offsets
  and reset values are Python integers. The description and the value labels are
  documentation only and are left out.
\<close>

datatype access = write_only | read_only | read_write

record CSRField =
  field_name :: string
  field_size :: int
  offset :: "int option"
  reset_value :: int
  access :: "access option"
  pulse :: bool

text \<open>
  The aggregate object: the list assigned to \<^verbatim>\<open>self.fields\<close>, and the attributes that
  \<^verbatim>\<open>setattr(self, field.name, field)\<close> assigns, by name. Such an attribute hides
  \<^verbatim>\<open>fields\<close> or a method of the class when a field bears that name.
\<close>

record CSRFieldAggregate =
  agg_fields :: "CSRField list"
  agg_setattr :: "string \<Rightarrow> CSRField option"

text \<open>\<^verbatim>\<open>check_names\<close>: the loop, with the list \<^verbatim>\<open>names\<close> of the names seen so far.\<close>

fun check_names_loop :: "string list \<Rightarrow> CSRField list \<Rightarrow> error + unit" where
  "check_names_loop names [] = Inr ()"
| "check_names_loop names (field # rest) =
     (if field_name field \<in> set names then Inl (ValueError_name_used (field_name field))
      else check_names_loop (names @ [field_name field]) rest)"

definition check_names :: "CSRField list \<Rightarrow> error + unit" where
  "check_names fs = check_names_loop [] fs"

text \<open>
  \<^verbatim>\<open>check_ordering_overlap\<close>: the loop, with the running \<^verbatim>\<open>offset\<close> as first argument.
  The method assigns \<^verbatim>\<open>field.offset\<close> in place; the model returns the fields as the loop
  leaves them.
\<close>

fun check_ordering_overlap_loop :: "int \<Rightarrow> CSRField list \<Rightarrow> error + CSRField list" where
  "check_ordering_overlap_loop cur [] = Inr []"
| "check_ordering_overlap_loop cur (field # rest) =
     (case offset field of
        Some off \<Rightarrow>
          if off < cur then Inl (ValueError_ordering_overlap (field_name field))
          else (case check_ordering_overlap_loop (off + field_size field) rest of
                  Inl e \<Rightarrow> Inl e
                | Inr rest' \<Rightarrow> Inr (field # rest'))
      | None \<Rightarrow>
          (case check_ordering_overlap_loop (cur + field_size field) rest of
             Inl e \<Rightarrow> Inl e
           | Inr rest' \<Rightarrow> Inr (field\<lparr>offset := Some cur\<rparr> # rest')))"

definition check_ordering_overlap :: "CSRField list \<Rightarrow> error + CSRField list" where
  "check_ordering_overlap fs = check_ordering_overlap_loop 0 fs"

text \<open>
  The loop of \<^verbatim>\<open>CSRFieldAggregate.__init__\<close>: an unset access mode inherits the
  aggregate's, a set one is asserted to be compatible with it, and the field becomes an
  attribute of the aggregate under its name.
\<close>

fun init_loop ::
  "access \<Rightarrow> CSRField list \<Rightarrow> (string \<Rightarrow> CSRField option)
     \<Rightarrow> error + (CSRField list \<times> (string \<Rightarrow> CSRField option))" where
  "init_loop acc [] attributes = Inr ([], attributes)"
| "init_loop acc (field # rest) attributes =
     (case access field of
        None \<Rightarrow>
          (case init_loop acc rest
                  (attributes(field_name field \<mapsto> field\<lparr>access := Some acc\<rparr>)) of
             Inl e \<Rightarrow> Inl e
           | Inr (rest', attributes') \<Rightarrow> Inr (field\<lparr>access := Some acc\<rparr> # rest', attributes'))
      | Some a \<Rightarrow>
          if acc = read_only \<and> a \<noteq> read_only then Inl AssertionError
          else if acc = read_write \<and> a \<notin> {read_write, write_only} then Inl AssertionError
          else (case init_loop acc rest (attributes(field_name field \<mapsto> field)) of
                  Inl e \<Rightarrow> Inl e
                | Inr (rest', attributes') \<Rightarrow> Inr (field # rest', attributes')))"

definition CSRFieldAggregate_init :: "CSRField list \<Rightarrow> access \<Rightarrow> error + CSRFieldAggregate" where
  "CSRFieldAggregate_init fs acc =
     (case check_names fs of
        Inl e \<Rightarrow> Inl e
      | Inr _ \<Rightarrow>
          (case check_ordering_overlap fs of
             Inl e \<Rightarrow> Inl e
           | Inr fs1 \<Rightarrow>
               (case init_loop acc fs1 (\<lambda>_. None) of
                  Inl e \<Rightarrow> Inl e
                | Inr (fs2, attributes) \<Rightarrow> Inr \<lparr>agg_fields = fs2, agg_setattr = attributes\<rparr>)))"

text \<open>
  \<^verbatim>\<open>get_size\<close>. A field named \<^verbatim>\<open>get_size\<close> hides the method, and calling a field
  raises \<^verbatim>\<open>TypeError\<close>; a field named \<^verbatim>\<open>fields\<close> hides the list, and the last element
  of a field, a slice of a signal, has no \<^verbatim>\<open>offset\<close>.
\<close>

definition get_size :: "CSRFieldAggregate \<Rightarrow> error + int" where
  "get_size agg =
     (if agg_setattr agg ''get_size'' \<noteq> None then Inl TypeError
      else if agg_setattr agg ''fields'' \<noteq> None then Inl AttributeError
      else if agg_fields agg = [] then Inl IndexError
      else (case offset (last (agg_fields agg)) of
              None \<Rightarrow> Inl TypeError
            | Some off \<Rightarrow> Inr (off + field_size (last (agg_fields agg)))))"

text \<open>
  \<^verbatim>\<open>get_reset\<close>: the loop, with the accumulated \<^verbatim>\<open>reset\<close>. Python's \<^verbatim>\<open><<\<close> raises
  \<^verbatim>\<open>ValueError\<close> for a negative shift count and \<^verbatim>\<open>TypeError\<close> for \<^verbatim>\<open>None\<close>. A
  field named \<^verbatim>\<open>get_reset\<close> hides the method, and calling a field raises
  \<^verbatim>\<open>TypeError\<close>; a field named \<^verbatim>\<open>fields\<close> hides the list, and the elements that the
  loop then reads from the field, slices of a signal, have no \<^verbatim>\<open>reset_value\<close>.
\<close>

fun get_reset_loop :: "int \<Rightarrow> CSRField list \<Rightarrow> error + int" where
  "get_reset_loop reset [] = Inr reset"
| "get_reset_loop reset (field # rest) =
     (case offset field of
        None \<Rightarrow> Inl TypeError
      | Some off \<Rightarrow>
          if off < 0 then Inl ValueError_negative_shift
          else get_reset_loop (reset OR push_bit (nat off) (reset_value field)) rest)"

definition get_reset :: "CSRFieldAggregate \<Rightarrow> error + int" where
  "get_reset agg =
     (if agg_setattr agg ''get_reset'' \<noteq> None then Inl TypeError
      else if agg_setattr agg ''fields'' \<noteq> None then Inl AttributeError
      else get_reset_loop 0 (agg_fields agg))"

text \<open>
  The cursor as the specification describes it: it starts at its initial value, and after
  each field it is that field's offset (the explicit one, or else the cursor itself) plus
  the field's size. \<open>cursor_at c fs i\<close> is the cursor in front of field \<open>i\<close> of \<open>fs\<close>.
\<close>

fun cursor_at :: "int \<Rightarrow> CSRField list \<Rightarrow> nat \<Rightarrow> int" where
  "cursor_at c fs 0 = c"
| "cursor_at c [] (Suc i) = c"
| "cursor_at c (f # fs) (Suc i) =
     cursor_at ((case offset f of Some off \<Rightarrow> off | None \<Rightarrow> c) + field_size f) fs i"

text \<open>The value of the bits \<open>[lo, hi)\<close> of an integer.\<close>

definition bit_range :: "int \<Rightarrow> int \<Rightarrow> int \<Rightarrow> int" where
  "bit_range v lo hi = take_bit (nat (hi - lo)) (drop_bit (nat lo) v)"

text \<open>
  Field \<open>i\<close> of \<open>fs\<close> has an explicit offset that lies below the cursor in front of it.
\<close>

definition below_cursor :: "int \<Rightarrow> CSRField list \<Rightarrow> nat \<Rightarrow> bool" where
  "below_cursor c fs i = (\<exists>off. offset (fs ! i) = Some off \<and> off < cursor_at c fs i)"

text \<open>A field whose size is not negative and whose reset value is a value of that many bits.\<close>

definition fits :: "CSRField \<Rightarrow> bool" where
  "fits f = (0 \<le> field_size f \<and> 0 \<le> reset_value f \<and> reset_value f < 2 ^ nat (field_size f))"

section \<open>Construction of the compound registers\<close>

text \<open>
  The first step of \<^verbatim>\<open>CSRStatus.__init__\<close> and \<^verbatim>\<open>CSRStorage.__init__\<close>: with fields, the
  aggregate is built and the size and the reset value are read off it; without, the
  arguments are kept. Returned with them are the fields as the aggregate leaves them.
\<close>

definition size_reset :: "int \<Rightarrow> int \<Rightarrow> CSRField list \<Rightarrow> access \<Rightarrow> error + (int \<times> int \<times> CSRField list)" where
  "size_reset size_arg reset fields_arg acc =
     (if fields_arg \<noteq> [] then
        (case CSRFieldAggregate_init fields_arg acc of
           Inl e \<Rightarrow> Inl e
         | Inr agg \<Rightarrow>
             (case get_size agg of
                Inl e \<Rightarrow> Inl e
              | Inr s \<Rightarrow>
                  (case get_reset agg of
                     Inl e \<Rightarrow> Inl e
                   | Inr r \<Rightarrow> Inr (s, r, agg_fields agg))))
      else Inr (size_arg, reset, []))"

text \<open>
  \<^verbatim>\<open>CSRStatus.__init__(size, reset, fields, name)\<close>: then \<^verbatim>\<open>_CSRBase.__init__\<close> takes the
  name, and the signal \<^verbatim>\<open>status\<close> of \<open>size\<close> bits is declared. The statements that
  connect the fields to \<^verbatim>\<open>status\<close> raise nothing.
\<close>

definition CSRStatus_init :: "int \<Rightarrow> int \<Rightarrow> CSRField list \<Rightarrow> string option \<Rightarrow> error + CSRStatus" where
  "CSRStatus_init size_arg reset fields_arg name =
     (case size_reset size_arg reset fields_arg read_only of
        Inl e \<Rightarrow> Inl e
      | Inr (s, r, fs) \<Rightarrow>
          (case CSRBase_init s name of
             Inl e \<Rightarrow> Inl e
           | Inr (n, s') \<Rightarrow>
               (case Signal s' of
                  Inl e \<Rightarrow> Inl e
                | Inr _ \<Rightarrow> Inr \<lparr>status_name = n, status_size = s'\<rparr>)))"

text \<open>
  \<^verbatim>\<open>CSRStorage.__init__(size, reset, fields, atomic_write, write_from_dev, alignment_bits,
  name)\<close>: after the name, \<^verbatim>\<open>storage_full\<close> of \<open>size\<close> bits is declared, then
  \<^verbatim>\<open>storage\<close> of \<^verbatim>\<open>size - alignment_bits\<close> bits with the reset value
  \<^verbatim>\<open>reset >> alignment_bits\<close>, a shift that raises for a negative count. The statement for
  \<^verbatim>\<open>write_from_dev\<close> is \<open>CSRStorage_init_sync\<close>. The statement of a field with
  \<^verbatim>\<open>pulse\<close> reads \<^verbatim>\<open>self.storage.re\<close>, an attribute that the signal \<^verbatim>\<open>storage\<close> does not
  have; the statements of the other fields raise nothing.
\<close>

definition CSRStorage_init ::
  "int \<Rightarrow> int \<Rightarrow> CSRField list \<Rightarrow> bool \<Rightarrow> bool \<Rightarrow> int \<Rightarrow> string option \<Rightarrow> error + CSRStorage" where
  "CSRStorage_init size_arg reset fields_arg atomic_write_arg write_from_dev_arg alignment_bits_arg name =
     (case size_reset size_arg reset fields_arg read_write of
        Inl e \<Rightarrow> Inl e
      | Inr (s, r, fs) \<Rightarrow>
          (case CSRBase_init s name of
             Inl e \<Rightarrow> Inl e
           | Inr (n, s') \<Rightarrow>
               (case Signal s' of
                  Inl e \<Rightarrow> Inl e
                | Inr _ \<Rightarrow>
                    if alignment_bits_arg < 0 then Inl ValueError_negative_shift
                    else
                      (case Signal (s' - alignment_bits_arg) of
                         Inl e \<Rightarrow> Inl e
                       | Inr _ \<Rightarrow>
                           if list_ex pulse fs then Inl AttributeError
                           else Inr \<lparr>storage_name = n, storage_size = s',
                                     alignment_bits = alignment_bits_arg,
                                     atomic_write = atomic_write_arg,
                                     write_from_dev = write_from_dev_arg\<rparr>))))"

section \<open>The register bank\<close>

text \<open>
  An element of the \<^verbatim>\<open>description\<close> of \<^verbatim>\<open>GenericBank\<close>: a simple \<^verbatim>\<open>CSR\<close>, or a
  compound register that the bank finalizes. \<^verbatim>\<open>c.finalize(busword)\<close> runs
  \<^verbatim>\<open>do_finalize\<close> of a register that is not finalized yet, which is how the bank
  receives them; \<^verbatim>\<open>get_simple_csrs\<close> then returns the simple registers it appended.
\<close>

datatype register = Simple CSR | Status CSRStatus | Storage CSRStorage

record GenericBank =
  bank_simple_csrs :: "CSR list"
  decode_bits :: int

text \<open>The loop of \<^verbatim>\<open>GenericBank.__init__\<close>, with \<^verbatim>\<open>self.simple_csrs\<close> as accumulator.\<close>

fun bank_loop :: "int \<Rightarrow> register list \<Rightarrow> CSR list \<Rightarrow> error + CSR list" where
  "bank_loop busword [] csrs = Inr csrs"
| "bank_loop busword (Simple c # rest) csrs =
     (if csr_size c \<le> busword then bank_loop busword rest (csrs @ [c]) else Inl AssertionError)"
| "bank_loop busword (Status c # rest) csrs =
     (case CSRStatus_do_finalize c busword of
        Inl e \<Rightarrow> Inl e
      | Inr d \<Rightarrow> bank_loop busword rest (csrs @ simple_csrs d))"
| "bank_loop busword (Storage c # rest) csrs =
     (case CSRStorage_do_finalize c busword of
        Inl e \<Rightarrow> Inl e
      | Inr d \<Rightarrow> bank_loop busword rest (csrs @ simple_csrs d))"

definition GenericBank_init :: "register list \<Rightarrow> int \<Rightarrow> error + GenericBank" where
  "GenericBank_init description busword =
     (case bank_loop busword description [] of
        Inl e \<Rightarrow> Inl e
      | Inr csrs \<Rightarrow>
          Inr \<lparr>bank_simple_csrs = csrs, decode_bits = bits_for (int (length csrs) - 1) False\<rparr>)"

text \<open>
  The decode width in the words of the specification:
  \<open>ceil(log2(max(1, slot_count - 1)))\<close>.
\<close>

definition spec_decode_width :: "int \<Rightarrow> int" where
  "spec_decode_width slot_count = \<lceil>log 2 (real_of_int (max 1 (slot_count - 1)))\<rceil>"


section \<open>Collecting registers, memories and constants\<close>

text \<open>
  The objects that a collection returns live in a heap, so that a rename made through one
  reference is seen through every other one. An item has its creation-order id
  \<^verbatim>\<open>duid\<close>, the class that \<^verbatim>\<open>isinstance\<close> tests (\<^verbatim>\<open>_CSRBase\<close>, with its subclasses
  \<^verbatim>\<open>CSR\<close>, \<^verbatim>\<open>CSRStatus\<close> and \<^verbatim>\<open>CSRStorage\<close>; \<^verbatim>\<open>CSRConstant\<close>; \<^verbatim>\<open>Memory\<close>), and
  the two names that the prefix functions rewrite.
\<close>

datatype cls = CSRBase | CSRConstant | Memory

record item =
  duid :: nat
  cls_of :: cls
  name :: string
  name_override :: string

text \<open>
  A component is an \<^verbatim>\<open>AutoCSR\<close> object: its identity, the pairs that
  \<^verbatim>\<open>xdir(self, True)\<close> yields (attribute name and value, in the order of the iteration), and
  \<^verbatim>\<open>autocsr_exclude\<close> when it is set. An attribute value is a reference to an item, a
  component (which has the three collection methods), or any other object, which has
  none of them.
\<close>

datatype obj = Inst nat | Collector component | Plain
  and component =
    Component (cid: nat) (attrs: "(string \<times> obj) list") (autocsr_exclude: "string set option")

text \<open>
  The mutable state: the heap of items, and for every component its attribute
  \<^verbatim>\<open>__prefixed\<close> (\<open>None\<close> until the first collection creates the set).
\<close>

record state =
  heap :: "nat \<Rightarrow> item"
  prefixed :: "nat \<Rightarrow> nat set option"

fun csrprefix :: "string \<Rightarrow> nat list \<Rightarrow> nat set \<Rightarrow> (nat \<Rightarrow> item) \<Rightarrow> nat set \<times> (nat \<Rightarrow> item)" where
  "csrprefix prefix [] done_ids h = (done_ids, h)"
| "csrprefix prefix (csr # csrs) done_ids h =
     (if duid (h csr) \<notin> done_ids then
        csrprefix prefix csrs (insert (duid (h csr)) done_ids)
          (h(csr := (h csr)\<lparr>name := prefix @ name (h csr)\<rparr>))
      else csrprefix prefix csrs done_ids h)"

fun memprefix :: "string \<Rightarrow> nat list \<Rightarrow> nat set \<Rightarrow> (nat \<Rightarrow> item) \<Rightarrow> nat set \<times> (nat \<Rightarrow> item)" where
  "memprefix prefix [] done_ids h = (done_ids, h)"
| "memprefix prefix (memory # memories) done_ids h =
     (if duid (h memory) \<notin> done_ids then
        memprefix prefix memories (insert (duid (h memory)) done_ids)
          (h(memory := (h memory)\<lparr>name_override := prefix @ name_override (h memory)\<rparr>))
      else memprefix prefix memories done_ids h)"

text \<open>
  The three methods of \<^verbatim>\<open>AutoCSR\<close>, each made by \<^verbatim>\<open>_make_gatherer\<close> from its own
  name, a class and a prefix function.
\<close>

datatype gather_method = get_memories | get_csrs | get_constants

fun method_cls :: "gather_method \<Rightarrow> cls" where
  "method_cls get_memories = Memory"
| "method_cls get_csrs = CSRBase"
| "method_cls get_constants = CSRConstant"

fun prefix_cb :: "gather_method \<Rightarrow> string \<Rightarrow> nat list \<Rightarrow> nat set \<Rightarrow> (nat \<Rightarrow> item) \<Rightarrow> nat set \<times> (nat \<Rightarrow> item)" where
  "prefix_cb get_memories = memprefix"
| "prefix_cb get_csrs = csrprefix"
| "prefix_cb get_constants = csrprefix"

text \<open>
  \<^verbatim>\<open>gatherer(self)\<close> and its loop over the attributes of component \<open>c\<close>, with the list
  \<open>r\<close>. The set \<^verbatim>\<open>prefixed\<close> is the object stored in the component, so the loop reads and
  writes it there.
\<close>

fun gatherer :: "gather_method \<Rightarrow> component \<Rightarrow> state \<Rightarrow> nat list \<times> state"
  and gather_loop ::
    "gather_method \<Rightarrow> nat \<Rightarrow> string set \<Rightarrow> (string \<times> obj) list \<Rightarrow> nat list \<Rightarrow> state \<Rightarrow> nat list \<times> state"
where
  "gatherer m (Component c kvs excl) st =
     (let exclude = (case excl of None \<Rightarrow> {} | Some e \<Rightarrow> e);
          st1 = (case prefixed st c of
                   None \<Rightarrow> st\<lparr>prefixed := (prefixed st)(c := Some {})\<rparr>
                 | Some _ \<Rightarrow> st)
      in case gather_loop m c exclude kvs [] st1 of
           (r, st2) \<Rightarrow> (sort_key (\<lambda>x. duid (heap st2 x)) r, st2))"
| "gather_loop m c exclude [] r st = (r, st)"
| "gather_loop m c exclude ((k, v) # rest) r st =
     (if k \<notin> exclude then
        (case v of
           Inst x \<Rightarrow>
             if cls_of (heap st x) = method_cls m then gather_loop m c exclude rest (r @ [x]) st
             else gather_loop m c exclude rest r st
         | Collector sub \<Rightarrow>
             (case gatherer m sub st of
                (items, st1) \<Rightarrow>
                  (case prefix_cb m (k @ ''_'') items
                          (case prefixed st1 c of None \<Rightarrow> {} | Some d \<Rightarrow> d) (heap st1) of
                     (done_ids, h) \<Rightarrow>
                       gather_loop m c exclude rest (r @ items)
                         (st1\<lparr>heap := h, prefixed := (prefixed st1)(c := Some done_ids)\<rparr>)))
         | Plain \<Rightarrow> gather_loop m c exclude rest r st)
      else gather_loop m c exclude rest r st)"


subsection \<open>Notions used to state and prove the properties of the collection\<close>

text \<open>
  The items that a collection from a component returns, as a function of the structure
  alone: what \<^verbatim>\<open>gatherer\<close> and its loop compute when the side effects on names and on
  the sets \<^verbatim>\<open>__prefixed\<close> are left out. It is used to state what the collection returns.
\<close>

fun reach :: "gather_method \<Rightarrow> (nat \<Rightarrow> item) \<Rightarrow> component \<Rightarrow> nat list"
  and reach_attrs :: "gather_method \<Rightarrow> (nat \<Rightarrow> item) \<Rightarrow> string set \<Rightarrow> (string \<times> obj) list \<Rightarrow> nat list"
where
  "reach m h (Component c kvs excl) =
     sort_key (\<lambda>x. duid (h x)) (reach_attrs m h (case excl of None \<Rightarrow> {} | Some e \<Rightarrow> e) kvs)"
| "reach_attrs m h exclude [] = []"
| "reach_attrs m h exclude ((k, v) # rest) =
     (if k \<notin> exclude then
        (case v of
           Inst x \<Rightarrow> if cls_of (h x) = method_cls m then [x] else []
         | Collector sub \<Rightarrow> reach m h sub
         | Plain \<Rightarrow> [])
      else []) @ reach_attrs m h exclude rest"

text \<open>Two heaps whose items have the same ids and classes (names may differ).\<close>

definition same_ids :: "(nat \<Rightarrow> item) \<Rightarrow> (nat \<Rightarrow> item) \<Rightarrow> bool" where
  "same_ids h h' = (\<forall>x. duid (h' x) = duid (h x) \<and> cls_of (h' x) = cls_of (h x))"

text \<open>The set \<^verbatim>\<open>__prefixed\<close> of component \<open>c\<close>, empty while the attribute is absent.\<close>

definition pset :: "state \<Rightarrow> nat \<Rightarrow> nat set" where
  "pset st c = (case prefixed st c of None \<Rightarrow> {} | Some d \<Rightarrow> d)"

text \<open>
  A state in which a collection from the component has nothing left to prefix: every
  component below has its set \<^verbatim>\<open>__prefixed\<close>, and the set holds the ids of all items
  that its nested collectors return.
\<close>

fun sat :: "gather_method \<Rightarrow> state \<Rightarrow> component \<Rightarrow> bool"
  and sat_attrs :: "gather_method \<Rightarrow> state \<Rightarrow> nat \<Rightarrow> string set \<Rightarrow> (string \<times> obj) list \<Rightarrow> bool"
where
  "sat m st (Component c kvs excl) =
     (prefixed st c \<noteq> None \<and> sat_attrs m st c (case excl of None \<Rightarrow> {} | Some e \<Rightarrow> e) kvs)"
| "sat_attrs m st c exclude [] = True"
| "sat_attrs m st c exclude ((k, v) # rest) =
     ((k \<notin> exclude \<longrightarrow>
        (case v of
           Collector sub \<Rightarrow>
             sat m st sub \<and> (\<lambda>x. duid (heap st x)) ` set (reach m (heap st) sub) \<subseteq> pset st c
         | _ \<Rightarrow> True))
      \<and> sat_attrs m st c exclude rest)"

text \<open>
  A later state: ids and classes are unchanged, and the sets \<^verbatim>\<open>__prefixed\<close> have only
  grown.
\<close>

definition ext :: "state \<Rightarrow> state \<Rightarrow> bool" where
  "ext st st' =
     (same_ids (heap st) (heap st')
      \<and> (\<forall>c. pset st c \<subseteq> pset st' c \<and> (prefixed st c \<noteq> None \<longrightarrow> prefixed st' c \<noteq> None)))"

text \<open>
  The name that the prefix function of a method rewrites: \<^verbatim>\<open>name_override\<close> for
  memories, \<^verbatim>\<open>name\<close> for registers and constants.
\<close>

definition mname :: "gather_method \<Rightarrow> item \<Rightarrow> string" where
  "mname m it = (case m of get_memories \<Rightarrow> name_override it | _ \<Rightarrow> name it)"

text \<open>
  The example of the specification: components \<open>A\<close> (registers created with ids 3 and 1)
  and \<open>B\<close> (a register with id 2) below a root, on a heap in which the item at reference
  \<open>x\<close> has id \<open>x\<close>, and a state in which nothing has been collected yet.
\<close>

definition example_heap :: "nat \<Rightarrow> item" where
  "example_heap x = \<lparr>duid = x, cls_of = CSRBase, name = ''r'', name_override = ''m''\<rparr>"

definition example_A :: component where
  "example_A = Component 10 [(''p'', Inst 3), (''q'', Inst 1)] None"

definition example_B :: component where
  "example_B = Component 11 [(''z'', Inst 2)] None"

definition example_root :: component where
  "example_root = Component 12 [(''a'', Collector example_A), (''b'', Collector example_B)] None"

definition example_state :: state where
  "example_state = \<lparr>heap = example_heap, prefixed = (\<lambda>_. None)\<rparr>"


section \<open>Properties\<close>

subsection \<open>Splitting a register into bus words\<close>

lemma nwords_ceiling:
  assumes "1 \<le> (b::int)"
  shows "(s + b - 1) div b = \<lceil>real_of_int s / real_of_int b\<rceil>"
proof -
  define q where "q = (s + b - 1) div b"
  define r where "r = (s + b - 1) mod b"
  have r: "0 \<le> r" "r < b" using assms by (simp_all add: r_def)
  have eq: "s + b - 1 = q * b + r" by (simp add: q_def r_def)
  have "real_of_int s \<le> real_of_int q * real_of_int b"
  proof -
    have "s \<le> q * b" using eq r by linarith
    then show ?thesis by (metis of_int_le_iff of_int_mult)
  qed
  moreover have "(real_of_int q - 1) * real_of_int b < real_of_int s"
  proof -
    have "(q - 1) * b < s" using eq r by (simp add: algebra_simps)
    then show ?thesis by (metis of_int_less_iff of_int_mult of_int_diff of_int_1)
  qed
  moreover have "0 < real_of_int b" using assms by simp
  ultimately have "real_of_int s / real_of_int b \<le> real_of_int q"
    and "real_of_int q - 1 < real_of_int s / real_of_int b"
    by (simp_all add: pos_divide_le_eq pos_less_divide_eq)
  then have "\<lceil>real_of_int s / real_of_int b\<rceil> = q"
    by (intro ceiling_unique) simp_all
  then show ?thesis by (simp add: q_def)
qed

lemma sum_widths:
  assumes "1 \<le> (b::int)" "0 \<le> s" "int n * b < s + b"
  shows "sum_list (map (\<lambda>i. min s ((i + 1) * b) - i * b) (map int [0..<n])) = min s (int n * b)"
  using assms
proof (induction n)
  case 0 then show ?case by simp
next
  case (Suc n)
  have "int n * b < s + b" using Suc.prems by (simp add: algebra_simps)
  with Suc have IH: "sum_list (map (\<lambda>i. min s ((i + 1) * b) - i * b) (map int [0..<n])) = min s (int n * b)"
    by simp
  have "int n * b \<le> s" using Suc.prems by (simp add: algebra_simps)
  then have "min s (int n * b) = int n * b" by simp
  with IH show ?case by (simp add: algebra_simps)
qed

lemma nwords_bounds:
  assumes "1 \<le> (b::int)" "1 \<le> s"
  shows "1 \<le> (s + b - 1) div b" "s \<le> ((s + b - 1) div b) * b" "((s + b - 1) div b) * b < s + b"
proof -
  define q where "q = (s + b - 1) div b"
  define r where "r = (s + b - 1) mod b"
  have r: "0 \<le> r" "r < b" using assms by (simp_all add: r_def)
  have eq: "s + b - 1 = q * b + r" by (simp add: q_def r_def)
  show "s \<le> ((s + b - 1) div b) * b" "((s + b - 1) div b) * b < s + b"
    using eq r unfolding q_def by linarith+
  have "b div b \<le> (s + b - 1) div b" using assms by (intro zdiv_mono1) simp_all
  then show "1 \<le> (s + b - 1) div b" using assms by simp
qed

lemma word_width:
  "min (s - i * b) b = min s ((i + 1) * b) - i * (b::int)"
  by (simp add: algebra_simps min_def)

lemma sum_list_rev_map: "sum_list (map f (rev xs)) = sum_list (map (f::'a \<Rightarrow> int) xs)"
  by (metis rev_map sum_list_rev)

lemma range_nonempty: "1 \<le> n \<Longrightarrow> reversed (range n) \<noteq> []"
  by (simp add: range_def reversed_def)

lemma length_reversed_range: "length (reversed (range n)) = nat n"
  by (simp add: range_def reversed_def)

lemma reversed_range_eq: "reversed (range n) = rev (map int [0..<nat n])"
  by (simp add: range_def reversed_def)

lemma word_index_bound:
  assumes "1 \<le> (b::int)" "i < (s + b - 1) div b"
  shows "i * b < s"
proof -
  define q where "q = (s + b - 1) div b"
  define r where "r = (s + b - 1) mod b"
  have r: "0 \<le> r" "r < b" using assms by (simp_all add: r_def)
  have eq: "s + b - 1 = q * b + r" by (simp add: q_def r_def)
  have "i + 1 \<le> q" using assms by (simp add: q_def)
  then have "(i + 1) * b \<le> q * b" using assms by (intro mult_right_mono) simp_all
  then show ?thesis using eq r by (simp add: algebra_simps)
qed

lemma two_words_size:
  assumes "1 \<le> (b::int)" "1 < (s + b - 1) div b"
  shows "b < s"
proof (rule ccontr)
  assume "\<not> b < s"
  then have "s + b - 1 \<le> (b - 1) + b" by simp
  then have "(s + b - 1) div b \<le> ((b - 1) + b) div b" using assms(1) by (intro zdiv_mono1) simp_all
  also have "\<dots> = (b - 1) div b + 1" by (rule div_add_self2) (use assms(1) in simp)
  also have "\<dots> = 1" using assms(1) by (simp add: div_pos_pos_trivial)
  finally show False using assms(2) by simp
qed

lemma for_loop_map:
  assumes "\<And>x. x \<in> set xs \<Longrightarrow> body x = Inr (f x)"
  shows "for_loop body xs = Inr (map f xs)"
  using assms by (induction xs) simp_all

lemma CSR_init_ok: "1 \<le> n \<Longrightarrow> CSR_init n (Some nm) = Inr \<lparr>csr_size = n, csr_name = nm\<rparr>"
  by (simp add: CSR_init_def CSRBase_init_def Signal_def)

lemma in_range_iff: "i \<in> set (range n) \<longleftrightarrow> 0 \<le> i \<and> i < n"
proof
  assume "i \<in> set (range n)"
  then obtain k where "i = int k" "k < nat n" by (auto simp: range_def)
  then show "0 \<le> i \<and> i < n" by auto
next
  assume "0 \<le> i \<and> i < n"
  then have "i = int (nat i)" "nat i < nat n" by auto
  then show "i \<in> set (range n)" unfolding range_def by (metis atLeast0LessThan imageI lessThan_iff set_map set_upt)
qed

lemma in_reversed_range: "i \<in> set (reversed (range n)) \<longleftrightarrow> 0 \<le> i \<and> i < n"
  using in_range_iff[of i n] by (simp add: reversed_def)

lemma word_nbits:
  assumes "1 \<le> (b::int)" "i \<in> set (reversed (range ((s + b - 1) div b)))"
  shows "1 \<le> min (s - i * b) b"
  using assms word_index_bound[of b i s] by (simp add: in_reversed_range)

text \<open>
  Claim C3. For a register of at least one bit and a bus of at least one bit,
  \<^verbatim>\<open>do_finalize\<close> of a status and of a storage register creates exactly
  \<open>\<lceil>size / busword\<rceil>\<close> simple registers, for the words \<open>nwords - 1, \<dots>, 0\<close> in this
  order; word \<open>i\<close> has the width of the bit range \<open>[i * busword, min size ((i + 1) * busword))\<close>,
  which is the range its read statement (status) and its non-atomic write statement
  (storage) address, and the widths add up to \<open>size\<close>.
\<close>

theorem split_words:
  fixes sreg :: CSRStatus and greg :: CSRStorage and busword :: int
  assumes "1 \<le> busword" and "1 \<le> status_size sreg" and "1 \<le> storage_size greg"
  shows "(\<exists>d. CSRStatus_do_finalize sreg busword = Inr d
           \<and> int (length (simple_csrs d)) = \<lceil>real_of_int (status_size sreg) / real_of_int busword\<rceil>
           \<and> map csr_size (simple_csrs d) =
               map (\<lambda>i. min (status_size sreg) ((i + 1) * busword) - i * busword)
                 (rev (map int [0..<length (simple_csrs d)]))
           \<and> comb d =
               map (\<lambda>i. Assign (Whole (sc_w i))
                      (Slice (Sig status) (i * busword) (min (status_size sreg) ((i + 1) * busword))))
                 (rev (map int [0..<length (simple_csrs d)]))
           \<and> sum_list (map csr_size (simple_csrs d)) = status_size sreg)
       \<and> (\<exists>d. CSRStorage_do_finalize greg busword = Inr d
           \<and> int (length (simple_csrs d)) = \<lceil>real_of_int (storage_size greg) / real_of_int busword\<rceil>
           \<and> map csr_size (simple_csrs d) =
               map (\<lambda>i. min (storage_size greg) ((i + 1) * busword) - i * busword)
                 (rev (map int [0..<length (simple_csrs d)]))
           \<and> (\<not> atomic_write greg \<longrightarrow> butlast (sync d) =
               map (\<lambda>i. If_then (Sig (sc_re i))
                      (Assign (Part storage_full (i * busword) (min (storage_size greg) ((i + 1) * busword)))
                         (Sig (sc_r i))))
                 (rev (map int [0..<length (simple_csrs d)])))
           \<and> sum_list (map csr_size (simple_csrs d)) = storage_size greg)"
proof (intro conjI)
  let ?s = "status_size sreg"
  let ?n = "(?s + busword - 1) div busword"
  have b0: "busword \<noteq> 0" using assms by simp
  have n: "1 \<le> ?n" "?s \<le> ?n * busword" "?n * busword < ?s + busword"
    using nwords_bounds[OF assms(1) assms(2)] by simp_all
  have nn: "int (nat ?n) = ?n" using n by simp
  define w where "w = (\<lambda>i.
      (\<lparr>csr_size = min (?s - i * busword) busword,
        csr_name = (if ?n > 1 then status_name sreg @ str i else status_name sreg)\<rparr>,
       Assign (Whole (sc_w i))
         (Slice (Sig status) (i * busword) (i * busword + min (?s - i * busword) busword))))"
  have loop: "for_loop (status_word sreg busword ?n) (reversed (range ?n))
      = Inr (map w (reversed (range ?n)))"
  proof (rule for_loop_map)
    fix i assume "i \<in> set (reversed (range ?n))"
    from word_nbits[OF assms(1) this] show "status_word sreg busword ?n i = Inr (w i)"
      by (simp add: status_word_def Let_def CSR_init_ok w_def)
  qed
  define d where "d = \<lparr>simple_csrs = map fst (map w (reversed (range ?n))),
      comb = map snd (map w (reversed (range ?n))), sync = []\<rparr>"
  have fin: "CSRStatus_do_finalize sreg busword = Inr d"
    using b0 by (simp add: CSRStatus_do_finalize_def Let_def d_def loop)
  have len: "length (simple_csrs d) = nat ?n"
    by (simp add: d_def length_reversed_range)
  have cnt: "int (length (simple_csrs d)) = \<lceil>real_of_int ?s / real_of_int busword\<rceil>"
    using nn nwords_ceiling[OF assms(1), of ?s] by (simp add: len)
  have sizes: "map csr_size (simple_csrs d) =
      map (\<lambda>i. min ?s ((i + 1) * busword) - i * busword) (rev (map int [0..<length (simple_csrs d)]))"
    unfolding len by (simp add: d_def reversed_range_eq w_def word_width rev_map)
  have cmb: "comb d = map (\<lambda>i. Assign (Whole (sc_w i))
                      (Slice (Sig status) (i * busword) (min ?s ((i + 1) * busword))))
                 (rev (map int [0..<length (simple_csrs d)]))"
    unfolding len
    by (simp add: d_def reversed_range_eq w_def rev_map min_def algebra_simps)
  have "sum_list (map csr_size (simple_csrs d)) =
      sum_list (map (\<lambda>i. min ?s ((i + 1) * busword) - i * busword) (map int [0..<nat ?n]))"
    unfolding sizes len by (rule sum_list_rev_map)
  also have "\<dots> = min ?s (int (nat ?n) * busword)"
    using assms n by (intro sum_widths) (simp_all add: nn)
  also have "\<dots> = ?s" using n by (simp add: nn)
  finally have total: "sum_list (map csr_size (simple_csrs d)) = ?s" .
  show "\<exists>d. CSRStatus_do_finalize sreg busword = Inr d
           \<and> int (length (simple_csrs d)) = \<lceil>real_of_int (status_size sreg) / real_of_int busword\<rceil>
           \<and> map csr_size (simple_csrs d) =
               map (\<lambda>i. min (status_size sreg) ((i + 1) * busword) - i * busword)
                 (rev (map int [0..<length (simple_csrs d)]))
           \<and> comb d =
               map (\<lambda>i. Assign (Whole (sc_w i))
                      (Slice (Sig status) (i * busword) (min (status_size sreg) ((i + 1) * busword))))
                 (rev (map int [0..<length (simple_csrs d)]))
           \<and> sum_list (map csr_size (simple_csrs d)) = status_size sreg"
    using fin cnt sizes cmb total by blast
next
  let ?s = "storage_size greg"
  let ?n = "(?s + busword - 1) div busword"
  have b0: "busword \<noteq> 0" using assms by simp
  have n: "1 \<le> ?n" "?s \<le> ?n * busword" "?n * busword < ?s + busword"
    using nwords_bounds[OF assms(1) assms(3)] by simp_all
  have nn: "int (nat ?n) = ?n" using n by simp
  define w where "w = (\<lambda>i. projr (storage_word greg busword ?n i))"
  have word: "storage_word greg busword ?n i = Inr (w i)
      \<and> csr_size (fst (w i)) = min (?s - i * busword) busword
      \<and> (\<not> atomic_write greg \<longrightarrow> snd (snd (w i)) =
            If_then (Sig (sc_re i))
              (Assign (Part storage_full (i * busword)
                         (i * busword + min (?s - i * busword) busword)) (Sig (sc_r i))))"
    if "i \<in> set (reversed (range ?n))" for i
    using word_nbits[OF assms(1) that]
    by (simp add: storage_word_def Let_def CSR_init_ok w_def)
  have loop: "for_loop (storage_word greg busword ?n) (reversed (range ?n))
      = Inr (map w (reversed (range ?n)))"
    by (rule for_loop_map) (simp add: word)
  let ?words = "map w (reversed (range ?n))"
  define d where "d = \<lparr>simple_csrs = map fst ?words,
      comb = map (fst \<circ> snd) ?words,
      sync = map (snd \<circ> snd) ?words @ [Assign (Whole re) (Sig (sc_re (last (reversed (range ?n)))))]\<rparr>"
  have bs: "(if 1 < ?n \<and> atomic_write greg then Signal (?s - busword) else Inr 0)
      = Inr (if 1 < ?n \<and> atomic_write greg then ?s - busword else 0)"
    using two_words_size[OF assms(1), of ?s] by (auto simp: Signal_def)
  have fin: "CSRStorage_do_finalize greg busword = Inr d"
    using b0 range_nonempty[OF n(1)]
    by (simp add: CSRStorage_do_finalize_def Let_def d_def loop bs)
  have len: "length (simple_csrs d) = nat ?n"
    by (simp add: d_def length_reversed_range)
  have cnt: "int (length (simple_csrs d)) = \<lceil>real_of_int ?s / real_of_int busword\<rceil>"
    using nn nwords_ceiling[OF assms(1), of ?s] by (simp add: len)
  have sizes: "map csr_size (simple_csrs d) =
      map (\<lambda>i. min ?s ((i + 1) * busword) - i * busword) (rev (map int [0..<length (simple_csrs d)]))"
  proof -
    have "map csr_size (simple_csrs d)
        = map (\<lambda>i. min (?s - i * busword) busword) (reversed (range ?n))"
      by (simp add: d_def word)
    then show ?thesis
      unfolding len by (simp add: reversed_range_eq word_width rev_map)
  qed
  have wr: "\<not> atomic_write greg \<longrightarrow> butlast (sync d) =
               map (\<lambda>i. If_then (Sig (sc_re i))
                      (Assign (Part storage_full (i * busword) (min ?s ((i + 1) * busword)))
                         (Sig (sc_r i))))
                 (rev (map int [0..<length (simple_csrs d)]))"
  proof
    assume na: "\<not> atomic_write greg"
    have "butlast (sync d)
        = map (\<lambda>i. If_then (Sig (sc_re i))
              (Assign (Part storage_full (i * busword)
                         (i * busword + min (?s - i * busword) busword)) (Sig (sc_r i))))
            (reversed (range ?n))"
      using na by (simp add: d_def word)
    then show "butlast (sync d) =
               map (\<lambda>i. If_then (Sig (sc_re i))
                      (Assign (Part storage_full (i * busword) (min ?s ((i + 1) * busword)))
                         (Sig (sc_r i))))
                 (rev (map int [0..<length (simple_csrs d)]))"
      unfolding len by (simp add: reversed_range_eq rev_map min_def algebra_simps)
  qed
  have "sum_list (map csr_size (simple_csrs d)) =
      sum_list (map (\<lambda>i. min ?s ((i + 1) * busword) - i * busword) (map int [0..<nat ?n]))"
    unfolding sizes len by (rule sum_list_rev_map)
  also have "\<dots> = min ?s (int (nat ?n) * busword)"
    using assms n by (intro sum_widths) (simp_all add: nn)
  also have "\<dots> = ?s" using n by (simp add: nn)
  finally have total: "sum_list (map csr_size (simple_csrs d)) = ?s" .
  show "\<exists>d. CSRStorage_do_finalize greg busword = Inr d
           \<and> int (length (simple_csrs d)) = \<lceil>real_of_int (storage_size greg) / real_of_int busword\<rceil>
           \<and> map csr_size (simple_csrs d) =
               map (\<lambda>i. min (storage_size greg) ((i + 1) * busword) - i * busword)
                 (rev (map int [0..<length (simple_csrs d)]))
           \<and> (\<not> atomic_write greg \<longrightarrow> butlast (sync d) =
               map (\<lambda>i. If_then (Sig (sc_re i))
                      (Assign (Part storage_full (i * busword) (min (storage_size greg) ((i + 1) * busword)))
                         (Sig (sc_r i))))
                 (rev (map int [0..<length (simple_csrs d)])))
           \<and> sum_list (map csr_size (simple_csrs d)) = storage_size greg"
    using fin cnt sizes wr total by blast
qed

theorem split_words_witness:
  "(1::int) \<le> 8
   \<and> (\<exists>d. CSRStatus_do_finalize \<lparr>status_name = ''s'', status_size = 24\<rparr> 8 = Inr d
         \<and> length (simple_csrs d) = 3 \<and> map csr_size (simple_csrs d) = [8, 8, 8])
   \<and> (\<exists>d. CSRStorage_do_finalize
           \<lparr>storage_name = ''g'', storage_size = 20, alignment_bits = 0,
            atomic_write = False, write_from_dev = False\<rparr> 8 = Inr d
         \<and> length (simple_csrs d) = 3 \<and> map csr_size (simple_csrs d) = [4, 8, 8]
         \<and> sum_list (map csr_size (simple_csrs d)) = 20)"
  using split_words [of 8 "\<lparr>status_name = ''s'', status_size = 24\<rparr>"
      "\<lparr>storage_name = ''g'', storage_size = 20, alignment_bits = 0,
        atomic_write = False, write_from_dev = False\<rparr>"]
  by (auto simp: upt_rec)

text \<open>
  Claim C4. A register of size 0 cannot be constructed: \<^verbatim>\<open>CSR\<close>, \<^verbatim>\<open>CSRStatus\<close> and
  \<^verbatim>\<open>CSRStorage\<close> declare a signal of \<open>size\<close> bits in \<^verbatim>\<open>__init__\<close>, which raises
  \<^verbatim>\<open>TypeError\<close> for a size of 0 (a register that has no name either fails before, with the
  \<^verbatim>\<open>ValueError\<close> of \<^verbatim>\<open>_CSRBase.__init__\<close>); so every register that was constructed,
  with or without fields, has at least one bit. With a bus width of 0, \<^verbatim>\<open>do_finalize\<close> of
  a status and of a storage register fails at once, the division that computes the word
  count raising \<^verbatim>\<open>ZeroDivisionError\<close>. The program has no exception class of its own
  for a configuration error: these built-in exceptions, raised at construction and at
  finalization, are its form here.
\<close>

theorem zero_size_or_busword_fails:
  "CSR_init 0 nm = Inl (case nm of None \<Rightarrow> ValueError_no_name | Some _ \<Rightarrow> TypeError)
   \<and> CSRStatus_init 0 reset [] nm
       = Inl (case nm of None \<Rightarrow> ValueError_no_name | Some _ \<Rightarrow> TypeError)
   \<and> CSRStorage_init 0 reset [] aw wfd ab nm
       = Inl (case nm of None \<Rightarrow> ValueError_no_name | Some _ \<Rightarrow> TypeError)
   \<and> (\<forall>sc. CSR_init n nm = Inr sc \<longrightarrow> 1 \<le> csr_size sc)
   \<and> (\<forall>sreg. CSRStatus_init n reset fs nm = Inr sreg \<longrightarrow> 1 \<le> status_size sreg)
   \<and> (\<forall>greg. CSRStorage_init n reset fs aw wfd ab nm = Inr greg \<longrightarrow> 1 \<le> storage_size greg)
   \<and> CSRStatus_do_finalize sreg 0 = Inl ZeroDivisionError
   \<and> CSRStorage_do_finalize greg 0 = Inl ZeroDivisionError"
proof (intro conjI allI impI)
  show "CSR_init 0 nm = Inl (case nm of None \<Rightarrow> ValueError_no_name | Some _ \<Rightarrow> TypeError)"
    by (simp add: CSR_init_def CSRBase_init_def Signal_def split: option.splits)
  show "CSRStatus_init 0 reset [] nm
       = Inl (case nm of None \<Rightarrow> ValueError_no_name | Some _ \<Rightarrow> TypeError)"
    by (simp add: CSRStatus_init_def size_reset_def CSRBase_init_def Signal_def split: option.splits)
  show "CSRStorage_init 0 reset [] aw wfd ab nm
       = Inl (case nm of None \<Rightarrow> ValueError_no_name | Some _ \<Rightarrow> TypeError)"
    by (simp add: CSRStorage_init_def size_reset_def CSRBase_init_def Signal_def split: option.splits)
  show "1 \<le> csr_size sc" if "CSR_init n nm = Inr sc" for sc
    using that
    by (auto simp: CSR_init_def CSRBase_init_def Signal_def
        split: option.splits sum.splits if_splits)
  show "1 \<le> status_size r" if "CSRStatus_init n reset fs nm = Inr r" for r
    using that
    by (auto simp: CSRStatus_init_def CSRBase_init_def Signal_def
        split: option.splits sum.splits prod.splits if_splits)
  show "1 \<le> storage_size g" if "CSRStorage_init n reset fs aw wfd ab nm = Inr g" for g
    using that
    by (auto simp: CSRStorage_init_def CSRBase_init_def Signal_def
        split: option.splits sum.splits prod.splits if_splits)
  show "CSRStatus_do_finalize sreg 0 = Inl ZeroDivisionError"
    by (simp add: CSRStatus_do_finalize_def)
  show "CSRStorage_do_finalize greg 0 = Inl ZeroDivisionError"
    by (simp add: CSRStorage_do_finalize_def)
qed

theorem zero_size_or_busword_fails_witness:
  "CSRStatus_init 0 0 [] (Some ''x'') = Inl TypeError
   \<and> CSRStorage_init 0 0 [] False False 0 (Some ''x'') = Inl TypeError
   \<and> CSRStatus_init 8 0 [] (Some ''x'') = Inr \<lparr>status_name = ''x'', status_size = 8\<rparr>
   \<and> (1::int) \<le> status_size \<lparr>status_name = ''x'', status_size = 8\<rparr>
   \<and> CSRStatus_do_finalize \<lparr>status_name = ''x'', status_size = 8\<rparr> 0 = Inl ZeroDivisionError"
proof -
  have ok: "CSRStatus_init 8 0 [] (Some ''x'') = Inr \<lparr>status_name = ''x'', status_size = 8\<rparr>"
    by (simp add: CSRStatus_init_def size_reset_def CSRBase_init_def Signal_def)
  from zero_size_or_busword_fails
         [of "Some ''x''" 0 False False 0 8 "[]" "\<lparr>status_name = ''x'', status_size = 8\<rparr>"] ok
  show ?thesis by simp
qed


subsection \<open>Reading and writing the words of a storage register\<close>

lemma slice_index_in_range: "0 \<le> x \<Longrightarrow> x \<le> int n \<Longrightarrow> slice_index n x = nat x"
  by (simp add: slice_index_def)

lemma bit_splice:
  assumes "a \<le> b"
  shows "bit (splice old a b v) n = (if a \<le> n \<and> n < b then bit v (n - a) else bit old n)"
  using assms by (auto simp: splice_def bit_simps max_def)

lemma cat_in_range:
  fixes x y :: nat
  assumes "x < 2 ^ n"
  shows "x OR push_bit n y = x + 2 ^ n * y"
proof -
  have "x + push_bit n y = x OR push_bit n y"
  proof (rule disjunctive_add)
    fix k
    show "\<not> bit x k \<or> \<not> bit (push_bit n y) k"
    proof (cases "k < n")
      case True then show ?thesis by (simp add: bit_simps)
    next
      case False
      then have "x < 2 ^ k" using assms
        by (meson leI le_less_trans less_imp_le_nat power_increasing one_le_numeral order_less_le_trans)
      then have "\<not> bit x k" by (simp add: bit_iff_odd)
      then show ?thesis by simp
    qed
  qed
  then show ?thesis by (simp add: push_bit_eq_mult mult.commute)
qed

lemma fold_exec_disabled:
  assumes "\<And>s. s \<in> set stmts \<Longrightarrow> \<exists>c body. s = If_then c body \<and> value_of w cur c = 0"
  shows "fold (exec w cur) stmts nxt = nxt"
  using assms
proof (induction stmts arbitrary: nxt)
  case Nil then show ?case by simp
next
  case (Cons s stmts)
  from Cons.prems[of s] obtain c body where "s = If_then c body" "value_of w cur c = 0" by auto
  then have "exec w cur s nxt = nxt" by simp
  moreover have "fold (exec w cur) stmts nxt = nxt"
    using Cons.prems by (intro Cons.IH) simp
  ultimately show ?case by simp
qed

lemma rev_upt_split:
  assumes "k < N"
  shows "rev (map int [0..<N]) = rev (map int [Suc k..<N]) @ [int k] @ rev (map int [0..<k])"
proof -
  have "[0..<N] = [0..<k] @ [k] @ [Suc k..<N]"
  proof -
    have "[0..<N] = [0..<k] @ [k..<N]"
      using upt_add_eq_append[of 0 k "N - k"] assms by simp
    moreover have "[k..<N] = k # [Suc k..<N]" using assms by (simp add: upt_conv_Cons)
    ultimately show ?thesis by simp
  qed
  then show ?thesis by simp
qed

lemma two_words:
  assumes "1 \<le> (b::int)" "b < s"
  shows "2 \<le> (s + b - 1) div b"
proof -
  have "(2 * b) div b \<le> (s + b - 1) div b" using assms by (intro zdiv_mono1) simp_all
  then show ?thesis using assms by simp
qed

lemma atomic_sync_shape:
  assumes "atomic_write reg" "1 \<le> busword" "busword < storage_size reg"
  shows "\<exists>d. CSRStorage_do_finalize reg busword = Inr d \<and>
     sync d = map (atomic_wr reg busword)
                (rev (map int [0..<nat ((storage_size reg + busword - 1) div busword)]))
              @ [Assign (Whole re) (Sig (sc_re 0))]"
proof -
  let ?n = "(storage_size reg + busword - 1) div busword"
  have n2: "2 \<le> ?n" using two_words[OF assms(2,3)] .
  then have ne: "reversed (range ?n) \<noteq> []" by (intro range_nonempty) simp
  have lst: "last (reversed (range ?n)) = 0"
  proof -
    have "[0..<nat ?n] = 0 # [Suc 0..<nat ?n]" using n2 by (simp add: upt_conv_Cons)
    then show ?thesis by (simp add: reversed_def range_def)
  qed
  define w where "w = (\<lambda>j. projr (storage_word reg busword ?n j))"
  have word: "storage_word reg busword ?n j = Inr (w j)
      \<and> (snd \<circ> snd) (w j) = atomic_wr reg busword j"
    if "j \<in> set (reversed (range ?n))" for j
    using word_nbits[OF assms(2) that] n2 assms(1)
    by (simp add: storage_word_def atomic_wr_def Let_def CSR_init_ok w_def)
  have loop: "for_loop (storage_word reg busword ?n) (reversed (range ?n))
      = Inr (map w (reversed (range ?n)))"
    by (rule for_loop_map) (simp add: word)
  have "map (snd \<circ> snd) (map w (reversed (range ?n)))
      = map (atomic_wr reg busword) (reversed (range ?n))"
    unfolding map_map using word by (intro map_cong) simp_all
  then have "map (snd \<circ> snd) (map w (reversed (range ?n)))
      = map (atomic_wr reg busword) (rev (map int [0..<nat ?n]))"
    by (simp only: reversed_range_eq)
  moreover have "Signal (storage_size reg - busword) = Inr (storage_size reg - busword)"
    using assms(3) by (simp add: Signal_def)
  ultimately show ?thesis
    using assms(1,2) n2 ne lst by (simp add: CSRStorage_do_finalize_def Let_def loop)
qed

text \<open>
  Claim C1. A storage register with \<^verbatim>\<open>atomic_write\<close> that spans more than one bus word,
  at a clock edge on which the bus writes exactly one word \<open>i\<close> (only its strobe
  \<^verbatim>\<open>re\<close> is high), the signals holding values of their widths. For \<open>i \<noteq> 0\<close>, and no
  write from the design on that edge, the stored value \<^verbatim>\<open>storage_full\<close> is unchanged and
  the back-buffer changes in the bits of word \<open>i\<close> only, which take the written data. For
  \<open>i = 0\<close> the stored value becomes the written data in the low \<open>busword\<close> bits with the
  current back-buffer above them, and the back-buffer keeps its contents.
\<close>

theorem atomic_write_commit:
  fixes reg :: CSRStorage and busword i :: int and cur :: "signal \<Rightarrow> nat"
  defines "w \<equiv> storage_widths reg busword"
  assumes atomic: "atomic_write reg" and bw: "1 \<le> busword" and multi: "busword < storage_size reg"
    and idx: "i \<in> set (range ((storage_size reg + busword - 1) div busword))"
    and strobe: "\<forall>j. cur (sc_re j) = (if j = i then 1 else 0)"
    and nodev: "i = 0 \<or> \<not> write_from_dev reg \<or> cur we = 0"
    and data: "cur (sc_r i) < 2 ^ w (sc_r i)" and buf: "cur backstore < 2 ^ w backstore"
  shows "\<exists>d. CSRStorage_do_finalize reg busword = Inr d \<and>
      (let nxt = step w (CSRStorage_init_sync reg @ sync d) cur;
           lo = nat (i * busword - busword);
           hi = nat (min (storage_size reg) ((i + 1) * busword) - busword)
       in if i = 0 then
            nxt storage_full = cur (sc_r 0) + 2 ^ nat busword * cur backstore
            \<and> nxt backstore = cur backstore
          else
            nxt storage_full = cur storage_full
            \<and> (\<forall>n. bit (nxt backstore) n =
                  (if lo \<le> n \<and> n < hi then bit (cur (sc_r i)) (n - lo) else bit (cur backstore) n)))"
proof -
  let ?s = "storage_size reg"
  let ?n = "(?s + busword - 1) div busword"
  let ?wr = "atomic_wr reg busword"
  from atomic_sync_shape[OF atomic bw multi] obtain d where
    fin: "CSRStorage_do_finalize reg busword = Inr d" and
    sy: "sync d = map ?wr (rev (map int [0..<nat ?n])) @ [Assign (Whole re) (Sig (sc_re 0))]"
    by blast
  from idx have i0: "0 \<le> i" and iless: "i < ?n" by (simp_all add: in_range_iff)
  have ib: "i * busword < ?s" using word_index_bound[OF bw iless] .
  define k where "k = nat i"
  have ik: "i = int k" and kN: "k < nat ?n" using i0 iless by (simp_all add: k_def)
  have split: "rev (map int [0..<nat ?n]) = rev (map int [Suc k..<nat ?n]) @ [i] @ rev (map int [0..<k])"
    using rev_upt_split[OF kN] ik by simp
  have w_re: "w (sc_re j) = 1" for j by (simp add: w_def storage_widths_def)
  have off: "value_of w cur (Sig (sc_re j)) = 0" if "j \<noteq> i" for j
    using strobe that by (simp add: w_re)
  have on: "value_of w cur (Sig (sc_re i)) \<noteq> 0"
    using strobe by (simp add: w_re)
  have disA: "fold (exec w cur) (map ?wr (rev (map int [Suc k..<nat ?n]))) x = x" for x
  proof (rule fold_exec_disabled)
    fix st assume "st \<in> set (map ?wr (rev (map int [Suc k..<nat ?n])))"
    then obtain j where "st = ?wr j" "j \<noteq> i" using ik by auto
    then show "\<exists>c body. st = If_then c body \<and> value_of w cur c = 0"
      using off by (auto simp: atomic_wr_def)
  qed
  have disB: "fold (exec w cur) (map ?wr (rev (map int [0..<k]))) x = x" for x
  proof (rule fold_exec_disabled)
    fix st assume "st \<in> set (map ?wr (rev (map int [0..<k])))"
    then obtain j where "st = ?wr j" "j \<noteq> i" using ik by auto
    then show "\<exists>c body. st = If_then c body \<and> value_of w cur c = 0"
      using off by (auto simp: atomic_wr_def)
  qed
  define X where "X = fold (exec w cur) (CSRStorage_init_sync reg) cur"
  define nxt where "nxt = step w (CSRStorage_init_sync reg @ sync d) cur"
  have nxt_eq: "nxt = exec w cur (Assign (Whole re) (Sig (sc_re 0))) (exec w cur (?wr i) X)"
    unfolding nxt_def step_def sy split by (simp add: disA disB X_def)
  have Xb: "X backstore = cur backstore"
    by (simp add: X_def CSRStorage_init_sync_def)
  have concl: "if i = 0 then
            nxt storage_full = cur (sc_r 0) + 2 ^ nat busword * cur backstore
            \<and> nxt backstore = cur backstore
          else
            nxt storage_full = cur storage_full
            \<and> (\<forall>n. bit (nxt backstore) n =
                  (if nat (i * busword - busword) \<le> n \<and> n < nat (min ?s ((i + 1) * busword) - busword)
                   then bit (cur (sc_r i)) (n - nat (i * busword - busword)) else bit (cur backstore) n))"
  proof (cases "i = 0")
    case True
    have wr0: "w (sc_r 0) = nat busword" using bw multi by (simp add: w_def storage_widths_def)
    have wbs: "w backstore = nat (?s - busword)" by (simp add: w_def storage_widths_def)
    have wsf: "w storage_full = nat ?s" by (simp add: w_def storage_widths_def)
    have r0: "cur (sc_r 0) < 2 ^ nat busword" using data True wr0 by simp
    have bs: "cur backstore < 2 ^ nat (?s - busword)" using buf wbs by simp
    have v: "value_of w cur (Cat (Sig (sc_r 0)) (Sig backstore)) = cur (sc_r 0) + 2 ^ nat busword * cur backstore"
      using r0 bs by (simp add: wr0 wbs take_bit_nat_eq_self cat_in_range)
    have "cur (sc_r 0) + 2 ^ nat busword * cur backstore < 2 ^ nat ?s"
    proof -
      have "cur backstore + 1 \<le> 2 ^ nat (?s - busword)" using bs by simp
      then have "2 ^ nat busword * (cur backstore + 1) \<le> 2 ^ nat busword * 2 ^ nat (?s - busword)"
        by (rule mult_le_mono2)
      also have "\<dots> = 2 ^ nat ?s" using bw multi by (simp add: power_add[symmetric] nat_add_distrib[symmetric])
      finally show ?thesis using r0 by (simp add: algebra_simps)
    qed
    then have "nxt storage_full = cur (sc_r 0) + 2 ^ nat busword * cur backstore"
      unfolding nxt_eq using True on
      by (simp add: atomic_wr_def v wsf take_bit_nat_eq_self del: value_of.simps)
    moreover have "nxt backstore = cur backstore"
      unfolding nxt_eq using True on by (simp add: atomic_wr_def Xb del: value_of.simps)
    ultimately show ?thesis using True by simp
  next
    case False
    then have i1: "1 \<le> i" using i0 by simp
    have Xc: "X = cur"
      using nodev False strobe by (auto simp: X_def CSRStorage_init_sync_def w_def storage_widths_def)
    have wbs: "w backstore = nat (?s - busword)" by (simp add: w_def storage_widths_def)
    have wri: "w (sc_r i) = nat (min (?s - i * busword) busword)" by (simp add: w_def storage_widths_def)
    have hi_eq: "i * busword + min (?s - i * busword) busword - busword = min ?s ((i + 1) * busword) - busword"
      by (simp add: min_def algebra_simps)
    have lo0: "0 \<le> i * busword - busword"
    proof -
      have "0 \<le> (i - 1) * busword" using i1 bw by (intro mult_nonneg_nonneg) simp_all
      then show ?thesis by (simp add: algebra_simps)
    qed
    have lo_le: "i * busword - busword \<le> min ?s ((i + 1) * busword) - busword"
      using ib bw by (simp add: algebra_simps)
    have hi_le: "min ?s ((i + 1) * busword) - busword \<le> int (nat (?s - busword))"
      using multi by simp
    have si_lo: "slice_index (nat (?s - busword)) (i * busword - busword) = nat (i * busword - busword)"
      using lo0 lo_le hi_le by (intro slice_index_in_range) simp_all
    have si_hi: "slice_index (nat (?s - busword)) (min ?s ((i + 1) * busword) - busword)
        = nat (min ?s ((i + 1) * busword) - busword)"
      using lo0 lo_le hi_le by (intro slice_index_in_range) simp_all
    have sf: "nxt storage_full = cur storage_full"
      unfolding nxt_eq Xc using False on by (simp add: atomic_wr_def del: value_of.simps)
    have bsn: "nxt backstore = splice (cur backstore) (nat (i * busword - busword))
        (nat (min ?s ((i + 1) * busword) - busword)) (cur (sc_r i))"
      unfolding nxt_eq Xc using False on strobe data
      by (simp add: atomic_wr_def wbs hi_eq si_lo si_hi take_bit_nat_eq_self)
    have "nat (i * busword - busword) \<le> nat (min ?s ((i + 1) * busword) - busword)"
      using lo_le by (rule nat_mono)
    then show ?thesis using False sf by (simp add: bsn bit_splice)
  qed
  show ?thesis using fin concl unfolding nxt_def Let_def by blast
qed


lemma repeat_bits_zero: "repeat_bits 0 l n = 0"
  by (induction n) simp_all

theorem atomic_write_commit_witness:
  "atomic_write \<lparr>storage_name = ''g'', storage_size = 24, alignment_bits = 0,
       atomic_write = True, write_from_dev = False\<rparr>
   \<and> (2::int) \<in> set (range ((24 + 8 - 1) div 8))
   \<and> (\<exists>d. CSRStorage_do_finalize
         \<lparr>storage_name = ''g'', storage_size = 24, alignment_bits = 0,
          atomic_write = True, write_from_dev = False\<rparr> 8 = Inr d
       \<and> step (storage_widths
               \<lparr>storage_name = ''g'', storage_size = 24, alignment_bits = 0,
                atomic_write = True, write_from_dev = False\<rparr> 8)
            (CSRStorage_init_sync
               \<lparr>storage_name = ''g'', storage_size = 24, alignment_bits = 0,
                atomic_write = True, write_from_dev = False\<rparr> @ sync d)
            (\<lambda>s. case s of storage_full \<Rightarrow> 1193046 | sc_re j \<Rightarrow> if j = 2 then 1 else 0
                  | sc_r j \<Rightarrow> if j = 2 then 171 else 0 | _ \<Rightarrow> 0) storage_full
           = 1193046)"
proof -
  let ?reg = "\<lparr>storage_name = ''g'', storage_size = 24, alignment_bits = 0,
       atomic_write = True, write_from_dev = False\<rparr>"
  let ?cur = "\<lambda>s. case s of storage_full \<Rightarrow> 1193046 | sc_re j \<Rightarrow> if j = 2 then 1 else 0
                  | sc_r j \<Rightarrow> if j = 2 then 171 else 0 | _ \<Rightarrow> (0::nat)"
  have a: "atomic_write ?reg" by simp
  have b: "(1::int) \<le> 8" "8 < storage_size ?reg" by simp_all
  have i: "(2::int) \<in> set (range ((storage_size ?reg + 8 - 1) div 8))"
    by (simp add: in_range_iff)
  have s: "\<forall>j. ?cur (sc_re j) = (if j = 2 then 1 else 0)" by simp
  have n: "(2::int) = 0 \<or> \<not> write_from_dev ?reg \<or> ?cur we = 0" by simp
  have d: "?cur (sc_r 2) < 2 ^ storage_widths ?reg 8 (sc_r 2)"
    "?cur backstore < 2 ^ storage_widths ?reg 8 backstore"
    by (simp_all add: storage_widths_def)
  from atomic_write_commit [OF a b i s n d] a i show ?thesis
    by (auto simp: Let_def)
qed

text \<open>
  Claim C2 at a failing input: an 8-bit storage register with \<^verbatim>\<open>alignment_bits = 2\<close> on an
  8-bit bus, holding 255. Its only word has \<open>lo = 0 < 2 < hi = 8\<close>; the read statement
  pads \<^verbatim>\<open>hi - alignment_bits = 6\<close> zero bits, not \<^verbatim>\<open>alignment_bits - lo = 2\<close>, so the
  word reads 192: bit 2 of the stored value, the first one at the alignment boundary, is set
  and reads as zero (stored bits 2 and 3 appear at positions 6 and 7).
\<close>

theorem aligned_read_shifts_bits:
  "\<exists>d. CSRStorage_do_finalize
         \<lparr>storage_name = ''g'', storage_size = 8, alignment_bits = 2,
          atomic_write = False, write_from_dev = False\<rparr> 8 = Inr d
     \<and> step (storage_widths
             \<lparr>storage_name = ''g'', storage_size = 8, alignment_bits = 2,
              atomic_write = False, write_from_dev = False\<rparr> 8)
          (comb d) ((\<lambda>_. 0)(storage_full := 255)) (sc_w 0) = 192
     \<and> bit (((\<lambda>_. 0)(storage_full := 255)) storage_full :: nat) 2
     \<and> \<not> bit (step (storage_widths
             \<lparr>storage_name = ''g'', storage_size = 8, alignment_bits = 2,
              atomic_write = False, write_from_dev = False\<rparr> 8)
          (comb d) ((\<lambda>_. 0)(storage_full := 255)) (sc_w 0)) 2"
proof -
  have v: "take_bit 8 (push_bit 6 (take_bit 6 (drop_bit 2 (take_bit 8 (255::nat))))) = (192::nat)"
    by code_simp
  have b: "bit (255::nat) 2" "\<not> bit (192::nat) 2" by code_simp+
  show ?thesis
    by (simp add: CSRStorage_do_finalize_def storage_word_def CSR_init_def CSRBase_init_def
      Signal_def Let_def range_def reversed_def
      step_def storage_widths_def slice_index_def bits_for_def log2_int_def repeat_bits_zero
      upt_rec v b)
qed

subsection \<open>Field layout and the combined reset value\<close>

lemma loop_ok:
  "check_ordering_overlap_loop c fs = Inr fs' \<Longrightarrow>
     length fs' = length fs \<and>
     (\<forall>i<length fs. fs' ! i = (fs ! i)\<lparr>offset := Some (case offset (fs ! i) of Some off \<Rightarrow> off | None \<Rightarrow> cursor_at c fs i)\<rparr>
        \<and> cursor_at c fs i \<le> (case offset (fs ! i) of Some off \<Rightarrow> off | None \<Rightarrow> cursor_at c fs i))"
proof (induction fs arbitrary: c fs')
  case Nil then show ?case by simp
next
  case (Cons f fs)
  show ?case
  proof (cases "offset f")
    case None
    with Cons.prems obtain r where r: "check_ordering_overlap_loop (c + field_size f) fs = Inr r"
      and fs': "fs' = f\<lparr>offset := Some c\<rparr> # r"
      by (auto split: sum.splits)
    from Cons.IH[OF r] None fs' show ?thesis
      by (auto simp: nth_Cons split: nat.splits cong: option.case_cong)
  next
    case (Some off)
    with Cons.prems have ge: "\<not> off < c" by (auto split: if_splits)
    with Some Cons.prems obtain r where r: "check_ordering_overlap_loop (off + field_size f) fs = Inr r"
      and fs': "fs' = f # r"
      by (auto split: sum.splits)
    from Cons.IH[OF r] Some fs' ge show ?thesis
      by (auto simp: nth_Cons split: nat.splits cong: option.case_cong)
  qed
qed

lemma loop_first_below_cursor:
  "i < length fs \<Longrightarrow> below_cursor c fs i \<Longrightarrow> (\<forall>j<i. \<not> below_cursor c fs j) \<Longrightarrow>
     check_ordering_overlap_loop c fs = Inl (ValueError_ordering_overlap (field_name (fs ! i)))"
proof (induction fs arbitrary: c i)
  case Nil then show ?case by simp
next
  case (Cons f fs)
  show ?case
  proof (cases i)
    case 0
    with Cons.prems show ?thesis by (auto simp: below_cursor_def)
  next
    case (Suc k)
    let ?c' = "(case offset f of Some off \<Rightarrow> off | None \<Rightarrow> c) + field_size f"
    have k: "k < length fs" using Cons.prems Suc by simp
    have bk: "below_cursor ?c' fs k" using Cons.prems(2) Suc by (simp add: below_cursor_def)
    have nb: "\<forall>j<k. \<not> below_cursor ?c' fs j"
    proof (intro allI impI)
      fix j assume "j < k"
      then have "\<not> below_cursor c (f # fs) (Suc j)" using Cons.prems(3) Suc by simp
      then show "\<not> below_cursor ?c' fs j" by (simp add: below_cursor_def)
    qed
    have n0: "\<not> below_cursor c (f # fs) 0" using Cons.prems(3) Suc by simp
    from Cons.IH[OF k bk nb] n0 Suc show ?thesis
      by (auto simp: below_cursor_def split: option.splits)
  qed
qed


lemma cursor_at_Suc:
  "i < length fs \<Longrightarrow>
     cursor_at c fs (Suc i) =
       (case offset (fs ! i) of Some off \<Rightarrow> off | None \<Rightarrow> cursor_at c fs i) + field_size (fs ! i)"
proof (induction fs arbitrary: c i)
  case Nil then show ?case by simp
next
  case (Cons f fs)
  show ?case
  proof (cases i)
    case 0 then show ?thesis by (simp cong: option.case_cong)
  next
    case (Suc k)
    then have "k < length fs" using Cons.prems by simp
    from Cons.IH[OF this] Suc show ?thesis by (simp cong: option.case_cong)
  qed
qed

lemma fits_bit:
  fixes r :: int
  assumes "0 \<le> r" "r < 2 ^ n" "bit r k"
  shows "k < n"
proof -
  have eq: "take_bit n r = r" using assms(1,2) by (rule take_bit_int_eq_self)
  have "bit (take_bit n r) k" using assms(3) by (simp only: eq)
  then show ?thesis by (simp only: bit_take_bit_iff)
qed

lemma bit_bit_range:
  "bit (bit_range v lo hi) k \<longleftrightarrow> k < nat (hi - lo) \<and> bit v (nat lo + k)"
  by (simp add: bit_range_def bit_take_bit_iff bit_drop_bit_eq)

lemma reset_loop_roundtrip:
  assumes "check_ordering_overlap_loop c fs = Inr fs'" "0 \<le> c" "\<forall>f\<in>set fs. fits f"
  shows "\<exists>R. (\<forall>acc. get_reset_loop acc fs' = Inr (acc OR R))
           \<and> (\<forall>n. bit R n \<longrightarrow> nat c \<le> n)
           \<and> (\<forall>f'\<in>set fs'. \<exists>off. offset f' = Some off \<and> c \<le> off
                  \<and> bit_range R off (off + field_size f') = reset_value f')"
  using assms
proof (induction fs arbitrary: c fs')
  case Nil
  then have "fs' = []" by simp
  then show ?case by (intro exI[of _ 0]) simp
next
  case (Cons f fs)
  define off where "off = (case offset f of Some x \<Rightarrow> x | None \<Rightarrow> c)"
  define f' where "f' = f\<lparr>offset := Some off\<rparr>"
  have ff: "fits f" using Cons.prems(3) by simp
  then have sz: "0 \<le> field_size f" and rv0: "0 \<le> reset_value f"
    and rvlt: "reset_value f < 2 ^ nat (field_size f)" by (simp_all add: fits_def)
  have "\<exists>r. check_ordering_overlap_loop (off + field_size f) fs = Inr r
      \<and> fs' = f' # r \<and> c \<le> off"
  proof (cases "offset f")
    case None
    then show ?thesis using Cons.prems(1)
      by (simp add: off_def f'_def split: sum.splits)
  next
    case (Some x)
    then have nlt: "\<not> x < c" using Cons.prems(1) by (auto split: if_splits)
    have same: "f' = f" using Some by (simp add: off_def f'_def)
    show ?thesis using Cons.prems(1) Some nlt unfolding same
      by (auto simp: off_def split: sum.splits)
  qed
  then obtain r where
    r: "check_ordering_overlap_loop (off + field_size f) fs = Inr r"
    and fs': "fs' = f' # r" and ge: "c \<le> off"
    by blast
  have c': "0 \<le> off + field_size f" using ge Cons.prems(2) sz by simp
  have rest: "\<forall>f\<in>set fs. fits f" using Cons.prems(3) by simp
  from Cons.IH[OF r c' rest] obtain R' where
    R': "(\<forall>acc. get_reset_loop acc r = Inr (acc OR R'))
           \<and> (\<forall>n. bit R' n \<longrightarrow> nat (off + field_size f) \<le> n)
           \<and> (\<forall>f'\<in>set r. \<exists>og. offset f' = Some og \<and> off + field_size f \<le> og
                  \<and> bit_range R' og (og + field_size f') = reset_value f')" ..
  have loop: "get_reset_loop acc r = Inr (acc OR R')" for acc using R' by blast
  have low: "nat (off + field_size f) \<le> n" if "bit R' n" for n using R' that by blast
  have rt: "\<exists>og. offset g = Some og \<and> off + field_size f \<le> og
                  \<and> bit_range R' og (og + field_size g) = reset_value g" if "g \<in> set r" for g
    using R' that by blast
  define R where "R = push_bit (nat off) (reset_value f) OR R'"
  have off0: "0 \<le> off" using ge Cons.prems(2) by simp
  have natsum: "nat (off + field_size f) = nat off + nat (field_size f)"
    using off0 sz by (simp add: nat_add_distrib)
  have rvbit: "k < nat (field_size f)" if "bit (reset_value f) k" for k
    using fits_bit[OF rv0 rvlt that] .
  have 1: "get_reset_loop acc fs' = Inr (acc OR R)" for acc
    using off0 by (simp add: fs' f'_def loop R_def or.assoc)
  have 2: "nat c \<le> n" if "bit R n" for n
  proof -
    from that have "bit (push_bit (nat off) (reset_value f)) n \<or> bit R' n"
      by (simp add: R_def bit_or_iff)
    then show ?thesis
    proof
      assume "bit (push_bit (nat off) (reset_value f)) n"
      then have "nat off \<le> n" by (simp add: bit_push_bit_iff)
      then show ?thesis using ge by simp
    next
      assume "bit R' n"
      from low[OF this] show ?thesis using ge sz Cons.prems(2) by simp
    qed
  qed
  have 3: "bit_range R off (off + field_size f') = reset_value f'"
  proof (rule bit_eqI)
    fix k
    have nR: "\<not> bit R' (nat off + k)" if "k < nat (field_size f)"
    proof
      assume "bit R' (nat off + k)"
      from low[OF this] that natsum show False by simp
    qed
    have "bit (bit_range R off (off + field_size f')) k
        \<longleftrightarrow> k < nat (field_size f) \<and> (bit (reset_value f) k \<or> bit R' (nat off + k))"
      by (simp add: bit_bit_range f'_def R_def bit_or_iff bit_push_bit_iff)
    also have "\<dots> \<longleftrightarrow> bit (reset_value f) k"
      using nR rvbit[of k] by blast
    finally show "bit (bit_range R off (off + field_size f')) k = bit (reset_value f') k"
      by (simp add: f'_def)
  qed
  have 4: "\<exists>og. offset g = Some og \<and> c \<le> og \<and> bit_range R og (og + field_size g) = reset_value g"
    if "g \<in> set r" for g
  proof -
    from rt[OF that] obtain og where og: "offset g = Some og" "off + field_size f \<le> og"
      "bit_range R' og (og + field_size g) = reset_value g" by blast
    have "nat (off + field_size f) \<le> nat og" using og(2) by (rule nat_mono)
    then have le: "nat off + nat (field_size f) \<le> nat og" using natsum by simp
    have "bit_range R og (og + field_size g) = bit_range R' og (og + field_size g)"
    proof (rule bit_eqI)
      fix k
      have "\<not> bit (push_bit (nat off) (reset_value f)) (nat og + k)"
      proof
        assume "bit (push_bit (nat off) (reset_value f)) (nat og + k)"
        then have "bit (reset_value f) (nat og + k - nat off)" by (simp add: bit_push_bit_iff)
        from rvbit[OF this] le show False by simp
      qed
      then show "bit (bit_range R og (og + field_size g)) k = bit (bit_range R' og (og + field_size g)) k"
        by (simp add: bit_bit_range R_def bit_or_iff)
    qed
    moreover have "c \<le> og" using og(2) ge sz by linarith
    ultimately show ?thesis using og(1,3) by simp
  qed
  have 5: "\<exists>og. offset f' = Some og \<and> c \<le> og \<and> bit_range R og (og + field_size f') = reset_value f'"
    using 3 ge by (simp add: f'_def)
  have 6: "\<forall>f''\<in>set fs'. \<exists>og. offset f'' = Some og \<and> c \<le> og
        \<and> bit_range R og (og + field_size f'') = reset_value f''"
  proof
    fix g assume "g \<in> set fs'"
    then have "g = f' \<or> g \<in> set r" by (simp add: fs')
    then show "\<exists>og. offset g = Some og \<and> c \<le> og \<and> bit_range R og (og + field_size g) = reset_value g"
      using 4 5 by blast
  qed
  have "(\<forall>acc. get_reset_loop acc fs' = Inr (acc OR R)) \<and> (\<forall>n. bit R n \<longrightarrow> nat c \<le> n)"
    using 1 2 by blast
  with 6 show ?case by blast
qed

lemma loop_accepts:
  "(\<forall>i<length fs. \<not> below_cursor c fs i) \<Longrightarrow> \<exists>fs'. check_ordering_overlap_loop c fs = Inr fs'"
proof (induction fs arbitrary: c)
  case Nil then show ?case by simp
next
  case (Cons f fs)
  let ?c' = "(case offset f of Some off \<Rightarrow> off | None \<Rightarrow> c) + field_size f"
  have "\<forall>i<length fs. \<not> below_cursor ?c' fs i"
  proof (intro allI impI)
    fix i assume "i < length fs"
    then have "\<not> below_cursor c (f # fs) (Suc i)" using Cons.prems by simp
    then show "\<not> below_cursor ?c' fs i" by (simp add: below_cursor_def)
  qed
  from Cons.IH[OF this] obtain r where r: "check_ordering_overlap_loop ?c' fs = Inr r" ..
  have n0: "\<not> below_cursor c (f # fs) 0" using Cons.prems by simp
  show ?case
  proof (cases "offset f")
    case None
    with r show ?thesis by simp
  next
    case (Some off)
    with n0 have "\<not> off < c" by (simp add: below_cursor_def)
    with r Some show ?thesis by simp
  qed
qed

lemma init_loop_map:
  "init_loop acc fs a = Inr (fs', a') \<Longrightarrow>
     fs' = map (\<lambda>f. f\<lparr>access := Some (case access f of None \<Rightarrow> acc | Some x \<Rightarrow> x)\<rparr>) fs
     \<and> (\<forall>n. a' n \<noteq> None \<longleftrightarrow> n \<in> field_name ` set fs \<or> a n \<noteq> None)"
proof (induction fs arbitrary: fs' a a')
  case Nil then show ?case by simp
next
  case (Cons f fs)
  show ?case
  proof (cases "access f")
    case None
    with Cons.prems obtain r where
      "init_loop acc fs (a(field_name f \<mapsto> f\<lparr>access := Some acc\<rparr>)) = Inr (r, a')"
      "fs' = f\<lparr>access := Some acc\<rparr> # r"
      by (auto split: sum.splits prod.splits)
    with Cons.IH[of _ r a'] None show ?thesis by auto
  next
    case (Some x)
    with Cons.prems obtain r where
      "init_loop acc fs (a(field_name f \<mapsto> f)) = Inr (r, a')" "fs' = f # r"
      by (auto split: sum.splits prod.splits if_splits)
    with Cons.IH[of _ r a'] Some show ?thesis by auto
  qed
qed

lemma get_reset_loop_access:
  "get_reset_loop r (map (\<lambda>f. f\<lparr>access := g f\<rparr>) fs) = get_reset_loop r fs"
  by (induction fs arbitrary: r) (simp_all split: option.splits)

lemma aggregate_built:
  assumes "CSRFieldAggregate_init fs acc = Inr agg"
  shows "\<exists>fs1. check_ordering_overlap_loop 0 fs = Inr fs1
           \<and> agg_fields agg
               = map (\<lambda>f. f\<lparr>access := Some (case access f of None \<Rightarrow> acc | Some x \<Rightarrow> x)\<rparr>) fs1
           \<and> (\<forall>n. agg_setattr agg n \<noteq> None \<longleftrightarrow> n \<in> field_name ` set fs)"
proof -
  from assms obtain fs1 fs2 a where
    chk: "check_ordering_overlap_loop 0 fs = Inr fs1" and
    il: "init_loop acc fs1 (\<lambda>_. None) = Inr (fs2, a)" and
    agg: "agg = \<lparr>agg_fields = fs2, agg_setattr = a\<rparr>"
    by (auto simp: CSRFieldAggregate_init_def check_ordering_overlap_def
        split: sum.splits prod.splits)
  have len: "length fs1 = length fs" and
    nth: "\<forall>i<length fs. fs1 ! i = (fs ! i)\<lparr>offset := Some (case offset (fs ! i) of Some off \<Rightarrow> off | None \<Rightarrow> cursor_at 0 fs i)\<rparr>"
    using loop_ok[OF chk] by simp_all
  have "map field_name fs1 = map field_name fs"
    using len nth by (intro nth_equalityI) simp_all
  then have "field_name ` set fs1 = field_name ` set fs"
    by (metis set_map)
  with init_loop_map[OF il] chk agg show ?thesis by simp
qed

text \<open>
  Claim C7. \<^verbatim>\<open>check_ordering_overlap\<close> against the cursor of the specification, which
  starts at 0. The first field whose explicit offset lies below the cursor makes the check
  fail with the ordering/overlap \<^verbatim>\<open>ValueError\<close> naming that field, and so does the
  construction of the aggregate once the names have passed \<^verbatim>\<open>check_names\<close>; any such
  field makes the check fail. A list with no such field passes the check, which returns
  it with every field keeping its explicit offset or else getting the cursor as its
  offset. Whenever the check passes, nothing but the offsets changes, each offset is at or
  above the cursor, and the cursor behind the field is its offset plus its size; the fields
  of an aggregate that was built have these offsets.
\<close>

theorem check_ordering_overlap_cursor:
  "cursor_at 0 fs 0 = 0
   \<and> (\<forall>i<length fs. below_cursor 0 fs i \<and> (\<forall>j<i. \<not> below_cursor 0 fs j) \<longrightarrow>
        check_ordering_overlap fs = Inl (ValueError_ordering_overlap (field_name (fs ! i)))
        \<and> (check_names fs = Inr () \<longrightarrow>
            CSRFieldAggregate_init fs acc = Inl (ValueError_ordering_overlap (field_name (fs ! i)))))
   \<and> ((\<exists>i<length fs. below_cursor 0 fs i) \<longrightarrow>
        (\<exists>n. check_ordering_overlap fs = Inl (ValueError_ordering_overlap n)))
   \<and> ((\<forall>i<length fs. \<not> below_cursor 0 fs i) \<longrightarrow>
        check_ordering_overlap fs =
          Inr (map (\<lambda>i. (fs ! i)\<lparr>offset :=
                     Some (case offset (fs ! i) of Some off \<Rightarrow> off | None \<Rightarrow> cursor_at 0 fs i)\<rparr>)
                 [0..<length fs]))
   \<and> (\<forall>fs'. check_ordering_overlap fs = Inr fs' \<longrightarrow>
        length fs' = length fs \<and>
        (\<forall>i<length fs.
            offset (fs' ! i) = Some (case offset (fs ! i) of Some off \<Rightarrow> off | None \<Rightarrow> cursor_at 0 fs i)
            \<and> fs' ! i = (fs ! i)\<lparr>offset := offset (fs' ! i)\<rparr>
            \<and> cursor_at 0 fs i \<le> the (offset (fs' ! i))
            \<and> cursor_at 0 fs (Suc i) = the (offset (fs' ! i)) + field_size (fs' ! i)))
   \<and> (\<forall>agg. CSRFieldAggregate_init fs acc = Inr agg \<longrightarrow>
        map offset (agg_fields agg) =
          map (\<lambda>i. Some (case offset (fs ! i) of Some off \<Rightarrow> off | None \<Rightarrow> cursor_at 0 fs i))
            [0..<length fs])"
proof (intro conjI allI impI)
  show "cursor_at 0 fs 0 = 0" by simp
next
  fix i assume i: "i < length fs" and b: "below_cursor 0 fs i \<and> (\<forall>j<i. \<not> below_cursor 0 fs j)"
  show first: "check_ordering_overlap fs = Inl (ValueError_ordering_overlap (field_name (fs ! i)))"
    unfolding check_ordering_overlap_def using loop_first_below_cursor[OF i, of 0] b by simp
  assume "check_names fs = Inr ()"
  then show "CSRFieldAggregate_init fs acc = Inl (ValueError_ordering_overlap (field_name (fs ! i)))"
    using first by (simp add: CSRFieldAggregate_init_def)
next
  assume "\<exists>i<length fs. below_cursor 0 fs i"
  then obtain i where "i < length fs \<and> below_cursor 0 fs i" by blast
  then have ex: "\<exists>i. i < length fs \<and> below_cursor 0 fs i" by blast
  define m where "m = (LEAST i. i < length fs \<and> below_cursor 0 fs i)"
  have m: "m < length fs \<and> below_cursor 0 fs m" unfolding m_def using ex by (rule LeastI_ex)
  have least: "\<not> below_cursor 0 fs j" if "j < m" for j
  proof
    assume "below_cursor 0 fs j"
    moreover have "j < length fs" using that m by simp
    ultimately have "m \<le> j" unfolding m_def by (intro Least_le) simp
    with that show False by simp
  qed
  have "check_ordering_overlap fs = Inl (ValueError_ordering_overlap (field_name (fs ! m)))"
    unfolding check_ordering_overlap_def using loop_first_below_cursor[of m fs 0] m least by simp
  then show "\<exists>n. check_ordering_overlap fs = Inl (ValueError_ordering_overlap n)" by blast
next
  assume "\<forall>i<length fs. \<not> below_cursor 0 fs i"
  from loop_accepts[OF this] obtain fs' where l: "check_ordering_overlap_loop 0 fs = Inr fs'" ..
  have "fs' = map (\<lambda>i. (fs ! i)\<lparr>offset :=
                     Some (case offset (fs ! i) of Some off \<Rightarrow> off | None \<Rightarrow> cursor_at 0 fs i)\<rparr>)
                 [0..<length fs]"
    using loop_ok[OF l] by (intro nth_equalityI) (simp_all cong: option.case_cong)
  with l show "check_ordering_overlap fs =
          Inr (map (\<lambda>i. (fs ! i)\<lparr>offset :=
                     Some (case offset (fs ! i) of Some off \<Rightarrow> off | None \<Rightarrow> cursor_at 0 fs i)\<rparr>)
                 [0..<length fs])"
    by (simp add: check_ordering_overlap_def)
next
  fix agg assume "CSRFieldAggregate_init fs acc = Inr agg"
  from aggregate_built[OF this] obtain fs1 where
    l: "check_ordering_overlap_loop 0 fs = Inr fs1" and
    af: "agg_fields agg
          = map (\<lambda>f. f\<lparr>access := Some (case access f of None \<Rightarrow> acc | Some x \<Rightarrow> x)\<rparr>) fs1"
    by blast
  have "map offset (agg_fields agg) = map offset fs1" by (simp add: af o_def)
  also have "\<dots> = map (\<lambda>i. Some (case offset (fs ! i) of Some off \<Rightarrow> off | None \<Rightarrow> cursor_at 0 fs i))
            [0..<length fs]"
    using loop_ok[OF l] by (intro nth_equalityI) (simp_all cong: option.case_cong)
  finally show "map offset (agg_fields agg) =
          map (\<lambda>i. Some (case offset (fs ! i) of Some off \<Rightarrow> off | None \<Rightarrow> cursor_at 0 fs i))
            [0..<length fs]" .
next
  fix fs' assume ok: "check_ordering_overlap fs = Inr fs'"
  then have l: "check_ordering_overlap_loop 0 fs = Inr fs'" by (simp add: check_ordering_overlap_def)
  from loop_ok[OF l] show "length fs' = length fs" by simp
  fix i assume i: "i < length fs"
  from loop_ok[OF l] i have
    eq: "fs' ! i = (fs ! i)\<lparr>offset := Some (case offset (fs ! i) of Some off \<Rightarrow> off | None \<Rightarrow> cursor_at 0 fs i)\<rparr>"
    and le: "cursor_at 0 fs i \<le> (case offset (fs ! i) of Some off \<Rightarrow> off | None \<Rightarrow> cursor_at 0 fs i)"
    by simp_all
  show o: "offset (fs' ! i) = Some (case offset (fs ! i) of Some off \<Rightarrow> off | None \<Rightarrow> cursor_at 0 fs i)"
    by (simp add: eq)
  show "fs' ! i = (fs ! i)\<lparr>offset := offset (fs' ! i)\<rparr>"
    unfolding o by (rule eq)
  show "cursor_at 0 fs i \<le> the (offset (fs' ! i))"
    unfolding o using le by simp
  show "cursor_at 0 fs (Suc i) = the (offset (fs' ! i)) + field_size (fs' ! i)"
    unfolding o using cursor_at_Suc[OF i, of 0] by (simp add: eq)
qed

theorem check_ordering_overlap_cursor_witness:
  "below_cursor 0
     [\<lparr>field_name = ''a'', field_size = 4, offset = None, reset_value = 0, access = None, pulse = False\<rparr>,
      \<lparr>field_name = ''b'', field_size = 2, offset = Some 3, reset_value = 0, access = None, pulse = False\<rparr>] 1
   \<and> CSRFieldAggregate_init
     [\<lparr>field_name = ''a'', field_size = 4, offset = None, reset_value = 0, access = None, pulse = False\<rparr>,
      \<lparr>field_name = ''b'', field_size = 2, offset = Some 3, reset_value = 0, access = None, pulse = False\<rparr>]
     read_write = Inl (ValueError_ordering_overlap ''b'')
   \<and> check_ordering_overlap
     [\<lparr>field_name = ''a'', field_size = 4, offset = None, reset_value = 0, access = None, pulse = False\<rparr>,
      \<lparr>field_name = ''b'', field_size = 2, offset = Some 6, reset_value = 0, access = None, pulse = False\<rparr>,
      \<lparr>field_name = ''c'', field_size = 1, offset = None, reset_value = 0, access = None, pulse = False\<rparr>]
     = Inr
     [\<lparr>field_name = ''a'', field_size = 4, offset = Some 0, reset_value = 0, access = None, pulse = False\<rparr>,
      \<lparr>field_name = ''b'', field_size = 2, offset = Some 6, reset_value = 0, access = None, pulse = False\<rparr>,
      \<lparr>field_name = ''c'', field_size = 1, offset = Some 8, reset_value = 0, access = None, pulse = False\<rparr>]"
proof -
  let ?fs = "[\<lparr>field_name = ''a'', field_size = 4, offset = None, reset_value = 0, access = None, pulse = False\<rparr>,
      \<lparr>field_name = ''b'', field_size = 2, offset = Some 3, reset_value = 0, access = None, pulse = False\<rparr>]"
  let ?gs = "[\<lparr>field_name = ''a'', field_size = 4, offset = None, reset_value = 0, access = None, pulse = False\<rparr>,
      \<lparr>field_name = ''b'', field_size = 2, offset = Some 6, reset_value = 0, access = None, pulse = False\<rparr>,
      \<lparr>field_name = ''c'', field_size = 1, offset = None, reset_value = 0, access = None, pulse = False\<rparr>]"
  have b1: "below_cursor 0 ?fs 1" by (simp add: below_cursor_def)
  have b0: "\<forall>j<1. \<not> below_cursor 0 ?fs j" by (simp add: below_cursor_def)
  have n: "check_names ?fs = Inr ()" by (simp add: check_names_def)
  have l: "(1::nat) < length ?fs" by simp
  from check_ordering_overlap_cursor [of ?fs read_write] l b1 b0 n
  have fails: "CSRFieldAggregate_init ?fs read_write = Inl (ValueError_ordering_overlap (field_name (?fs ! 1)))"
    by blast
  have g: "\<forall>i<length ?gs. \<not> below_cursor 0 ?gs i"
    by (simp add: below_cursor_def less_Suc_eq)
  from check_ordering_overlap_cursor [of ?gs read_write] g
  have "check_ordering_overlap ?gs =
          Inr (map (\<lambda>i. (?gs ! i)\<lparr>offset :=
                     Some (case offset (?gs ! i) of Some off \<Rightarrow> off | None \<Rightarrow> cursor_at 0 ?gs i)\<rparr>)
                 [0..<length ?gs])"
    by blast
  then have passes: "check_ordering_overlap ?gs =
     Inr [\<lparr>field_name = ''a'', field_size = 4, offset = Some 0, reset_value = 0, access = None, pulse = False\<rparr>,
      \<lparr>field_name = ''b'', field_size = 2, offset = Some 6, reset_value = 0, access = None, pulse = False\<rparr>,
      \<lparr>field_name = ''c'', field_size = 1, offset = Some 8, reset_value = 0, access = None, pulse = False\<rparr>]"
    by (simp add: upt_rec numeral_3_eq_3)
  show ?thesis using fails b1 passes by simp
qed

text \<open>
  Claim C8, amended. When the aggregate is built without error from fields whose sizes are
  not negative and whose reset values fit their sizes, and no field is named
  \<^verbatim>\<open>get_reset\<close> or \<^verbatim>\<open>fields\<close>, then \<^verbatim>\<open>get_reset\<close> succeeds and the bits
  \<open>[offset, offset + size)\<close> of the combined reset value are exactly the field's reset
  value, for every field. A field named \<^verbatim>\<open>get_reset\<close> or \<^verbatim>\<open>fields\<close> becomes the
  attribute of that name of the aggregate, and \<^verbatim>\<open>get_reset\<close> raises. The declared reset
  values are unchanged in every case.
\<close>

theorem reset_roundtrip:
  assumes "CSRFieldAggregate_init fs acc = Inr agg" and "\<forall>f\<in>set fs. fits f"
  shows "(if ''get_reset'' \<in> field_name ` set fs then get_reset agg = Inl TypeError
          else if ''fields'' \<in> field_name ` set fs then get_reset agg = Inl AttributeError
          else \<exists>r. get_reset agg = Inr r
                 \<and> (\<forall>f\<in>set (agg_fields agg). \<exists>off. offset f = Some off
                        \<and> bit_range r off (off + field_size f) = reset_value f))
         \<and> map reset_value (agg_fields agg) = map reset_value fs"
proof -
  let ?g = "\<lambda>f. f\<lparr>access := Some (case access f of None \<Rightarrow> acc | Some a \<Rightarrow> a)\<rparr>"
  from aggregate_built[OF assms(1)] obtain fs1 where
    chk: "check_ordering_overlap_loop 0 fs = Inr fs1" and
    af: "agg_fields agg = map ?g fs1" and
    sa: "\<forall>n. agg_setattr agg n \<noteq> None \<longleftrightarrow> n \<in> field_name ` set fs"
    by blast
  from reset_loop_roundtrip[OF chk _ assms(2)] obtain R where
    R: "(\<forall>a. get_reset_loop a fs1 = Inr (a OR R))
           \<and> (\<forall>f'\<in>set fs1. \<exists>off. offset f' = Some off \<and> 0 \<le> off
                  \<and> bit_range R off (off + field_size f') = reset_value f')"
    by auto
  have loop: "get_reset_loop 0 (agg_fields agg) = Inr R"
    using R by (simp add: af get_reset_loop_access)
  have rt: "\<forall>f\<in>set (agg_fields agg). \<exists>off. offset f = Some off
                  \<and> bit_range R off (off + field_size f) = reset_value f"
  proof
    fix f assume "f \<in> set (agg_fields agg)"
    then obtain f1 where "f1 \<in> set fs1" "f = ?g f1" by (auto simp: af)
    with R show "\<exists>off. offset f = Some off \<and> bit_range R off (off + field_size f) = reset_value f"
      by fastforce
  qed
  have 1: "if ''get_reset'' \<in> field_name ` set fs then get_reset agg = Inl TypeError
          else if ''fields'' \<in> field_name ` set fs then get_reset agg = Inl AttributeError
          else \<exists>r. get_reset agg = Inr r
                 \<and> (\<forall>f\<in>set (agg_fields agg). \<exists>off. offset f = Some off
                        \<and> bit_range r off (off + field_size f) = reset_value f)"
  proof (cases "''get_reset'' \<in> field_name ` set fs")
    case True
    then have "agg_setattr agg ''get_reset'' \<noteq> None" using sa by blast
    then show ?thesis using True by (simp add: get_reset_def)
  next
    case False
    then have n1: "agg_setattr agg ''get_reset'' = None" using sa by blast
    show ?thesis
    proof (cases "''fields'' \<in> field_name ` set fs")
      case True
      then have "agg_setattr agg ''fields'' \<noteq> None" using sa by blast
      then show ?thesis using True False n1 by (simp add: get_reset_def)
    next
      case nf: False
      then have n2: "agg_setattr agg ''fields'' = None" using sa by blast
      have "get_reset agg = Inr R" using n1 n2 loop by (simp add: get_reset_def)
      with rt have "\<exists>r. get_reset agg = Inr r
                 \<and> (\<forall>f\<in>set (agg_fields agg). \<exists>off. offset f = Some off
                        \<and> bit_range r off (off + field_size f) = reset_value f)"
        by blast
      then show ?thesis using False nf by simp
    qed
  qed
  have 2: "map reset_value (agg_fields agg) = map reset_value fs"
  proof -
    have "length fs1 = length fs" and
      "\<forall>i<length fs. fs1 ! i = (fs ! i)\<lparr>offset := Some (case offset (fs ! i) of Some off \<Rightarrow> off | None \<Rightarrow> cursor_at 0 fs i)\<rparr>"
      using loop_ok[OF chk] by simp_all
    then have "map reset_value fs1 = map reset_value fs"
      by (intro nth_equalityI) simp_all
    then show ?thesis by (simp add: af o_def)
  qed
  from 1 2 show ?thesis by (rule conjI)
qed

theorem reset_roundtrip_witness:
  "fits \<lparr>field_name = ''a'', field_size = 4, offset = None, reset_value = 5, access = None, pulse = False\<rparr>
   \<and> (\<exists>agg r. CSRFieldAggregate_init
       [\<lparr>field_name = ''a'', field_size = 4, offset = None, reset_value = 5, access = None, pulse = False\<rparr>,
        \<lparr>field_name = ''b'', field_size = 8, offset = Some 8, reset_value = 171,
          access = Some write_only, pulse = False\<rparr>] read_write = Inr agg
        \<and> agg_fields agg =
           [\<lparr>field_name = ''a'', field_size = 4, offset = Some 0, reset_value = 5,
              access = Some read_write, pulse = False\<rparr>,
            \<lparr>field_name = ''b'', field_size = 8, offset = Some 8, reset_value = 171,
              access = Some write_only, pulse = False\<rparr>]
        \<and> get_reset agg = Inr r
        \<and> bit_range r 0 (0 + 4) = 5 \<and> bit_range r 8 (8 + 8) = 171)"
proof -
  let ?fs = "[\<lparr>field_name = ''a'', field_size = 4, offset = None, reset_value = 5, access = None, pulse = False\<rparr>,
      \<lparr>field_name = ''b'', field_size = 8, offset = Some 8, reset_value = 171,
        access = Some write_only, pulse = False\<rparr>]"
  let ?out = "[\<lparr>field_name = ''a'', field_size = 4, offset = Some 0, reset_value = 5,
          access = Some read_write, pulse = False\<rparr>,
        \<lparr>field_name = ''b'', field_size = 8, offset = Some 8, reset_value = 171,
          access = Some write_only, pulse = False\<rparr>]"
  have "\<exists>agg. CSRFieldAggregate_init ?fs read_write = Inr agg \<and> agg_fields agg = ?out"
    by (simp add: CSRFieldAggregate_init_def check_names_def check_ordering_overlap_def)
  then obtain agg where i: "CSRFieldAggregate_init ?fs read_write = Inr agg"
    and o: "agg_fields agg = ?out" by blast
  have f: "\<forall>f\<in>set ?fs. fits f" by (simp add: fits_def)
  from reset_roundtrip [OF i f] obtain r where
    "get_reset agg = Inr r"
    "\<forall>f\<in>set (agg_fields agg). \<exists>off. offset f = Some off
         \<and> bit_range r off (off + field_size f) = reset_value f"
    by auto
  with i o f show ?thesis by auto
qed

text \<open>
  Claim C8, as stated, fails: no check bounds a reset value by the field's size. Two 1-bit
  fields with reset values 3 and 0 pass validation with offsets 0 and 1; the combined reset
  value is 3, and its bit range \<open>[1, 2)\<close> is 1, not the reset value 0 of the second field.
\<close>

theorem reset_roundtrip_fails_for_wide_reset:
  "\<exists>agg r. CSRFieldAggregate_init
     [\<lparr>field_name = ''a'', field_size = 1, offset = None, reset_value = 3, access = None, pulse = False\<rparr>,
      \<lparr>field_name = ''b'', field_size = 1, offset = None, reset_value = 0, access = None, pulse = False\<rparr>]
     read_write = Inr agg
   \<and> get_reset agg = Inr r
   \<and> (\<exists>f\<in>set (agg_fields agg). \<exists>off. offset f = Some off
         \<and> bit_range r off (off + field_size f) \<noteq> reset_value f)"
proof -
  let ?a = "\<lparr>field_name = ''a'', field_size = 1, offset = Some 0, reset_value = 3,
          access = Some read_write, pulse = False\<rparr>"
  let ?b = "\<lparr>field_name = ''b'', field_size = 1, offset = Some 1, reset_value = 0,
          access = Some read_write, pulse = False\<rparr>"
  let ?agg = "\<lparr>agg_fields = [?a, ?b], agg_setattr = [''a'' \<mapsto> ?a, ''b'' \<mapsto> ?b]\<rparr>"
  have i: "CSRFieldAggregate_init
     [\<lparr>field_name = ''a'', field_size = 1, offset = None, reset_value = 3, access = None, pulse = False\<rparr>,
      \<lparr>field_name = ''b'', field_size = 1, offset = None, reset_value = 0, access = None, pulse = False\<rparr>]
     read_write = Inr ?agg"
    by (simp add: CSRFieldAggregate_init_def check_names_def check_ordering_overlap_def)
  have "push_bit (Suc 0) (0::int) = 0" "(3::int) OR 0 = 3" by simp_all
  then have r: "get_reset ?agg = Inr 3" by (simp add: get_reset_def)
  have b: "bit_range 3 1 (1 + 1) = 1" by (simp add: bit_range_def)
  have "\<exists>f\<in>set (agg_fields ?agg). \<exists>off. offset f = Some off
         \<and> bit_range 3 off (off + field_size f) \<noteq> reset_value f"
    using b by simp
  with i r show ?thesis by blast
qed

subsection \<open>The address decode width of a bank\<close>

lemma bit_length_nat_bounds:
  "1 \<le> m \<Longrightarrow> 1 \<le> bit_length_nat m \<and> 2 ^ (bit_length_nat m - 1) \<le> m \<and> m < 2 ^ bit_length_nat m"
proof (induction m rule: bit_length_nat.induct)
  case (1 n)
  show ?case
  proof (cases "n div 2 = 0")
    case True
    then have "n = 1" using "1.prems" by (simp add: div_eq_0_iff)
    then show ?thesis by (simp add: bit_length_nat.simps)
  next
    case False
    then have h: "1 \<le> n div 2" by simp
    have n0: "n \<noteq> 0" using "1.prems" by simp
    from "1.IH"[OF n0 h] have
      b: "1 \<le> bit_length_nat (n div 2)" "2 ^ (bit_length_nat (n div 2) - 1) \<le> n div 2"
         "n div 2 < 2 ^ bit_length_nat (n div 2)" by simp_all
    have eq: "bit_length_nat n = Suc (bit_length_nat (n div 2))"
      using n0 by (subst bit_length_nat.simps) simp
    obtain r where r: "bit_length_nat (n div 2) = Suc r" using b(1) by (cases "bit_length_nat (n div 2)") simp_all
    have "2 * 2 ^ r \<le> n" using b(2) r by simp
    moreover have "n < 2 * 2 ^ Suc r" using b(3) r by simp
    ultimately show ?thesis using eq r by simp
  qed
qed

lemma bits_for_slots:
  assumes "2 \<le> n"
  shows "bits_for (int n - 1) False = \<lceil>log 2 (real n)\<rceil>"
proof -
  have m: "1 \<le> n - 1" using assms by simp
  from bit_length_nat_bounds[OF m] obtain r where
    r: "bit_length_nat (n - 1) = Suc r" and lo: "2 ^ r \<le> n - 1" and hi: "n - 1 < 2 ^ Suc r"
    by (cases "bit_length_nat (n - 1)") auto
  have "2 ^ r < n" using lo assms by linarith
  moreover have "n - 1 < 2 ^ (r + 1)" using hi by simp
  then have "n \<le> 2 ^ (r + 1)" using assms by linarith
  ultimately have "2 ^ r < n" "n \<le> 2 ^ (r + 1)" by simp_all
  then have "\<lceil>log (real 2) (real n)\<rceil> = int r + 1"
    by (intro ceiling_log_nat_eq_if) simp_all
  moreover have "bits_for (int n - 1) False = int (Suc r)"
  proof -
    have "nat \<bar>int n - 1\<bar> = n - 1" using assms by simp
    then show ?thesis using assms r by (simp add: bits_for_def log2_int_def bit_length_def)
  qed
  ultimately show ?thesis by simp
qed

lemma bits_for_few: "n \<le> 1 \<Longrightarrow> bits_for (int n - 1) False = 1"
proof -
  assume "n \<le> 1"
  then consider "n = 0" | "n = 1" by linarith
  then show ?thesis
    by cases (simp_all add: bits_for_def log2_int_def bit_length_def bit_length_nat.simps)
qed

text \<open>
  Claim C9, amended. The decode width of a bank is \<^verbatim>\<open>bits_for(slot_count - 1)\<close>, the
  number of bits that address the slots \<open>0, \<dots>, slot_count - 1\<close>: it is 1 for a bank of at
  most one slot and \<open>\<lceil>log2 slot_count\<rceil>\<close> otherwise.
\<close>

theorem decode_bits_width:
  assumes "GenericBank_init description busword = Inr bank"
  shows "decode_bits bank =
           (if length (bank_simple_csrs bank) \<le> 1 then 1
            else \<lceil>log 2 (real (length (bank_simple_csrs bank)))\<rceil>)"
proof -
  from assms obtain csrs where
    "bank = \<lparr>bank_simple_csrs = csrs, decode_bits = bits_for (int (length csrs) - 1) False\<rparr>"
    by (auto simp: GenericBank_init_def split: sum.splits)
  then show ?thesis using bits_for_slots[of "length csrs"] bits_for_few[of "length csrs"] by simp
qed

text \<open>
  Claim C9, as stated, fails: for a bank of one simple register the decode width is
  \<^verbatim>\<open>bits_for(0) = 1\<close>, where the formula of the specification,
  \<open>ceil(log2(max(1, slot_count - 1)))\<close>, gives 0.
\<close>

theorem decode_bits_differs_from_spec:
  "\<exists>bank. GenericBank_init [Simple \<lparr>csr_size = 8, csr_name = ''x''\<rparr>] 8 = Inr bank
     \<and> length (bank_simple_csrs bank) = 1
     \<and> decode_bits bank = 1
     \<and> spec_decode_width (int (length (bank_simple_csrs bank))) = 0"
  by (simp add: GenericBank_init_def bits_for_def log2_int_def spec_decode_width_def)

theorem decode_bits_width_witness:
  "\<exists>bank. GenericBank_init
       [Simple \<lparr>csr_size = 8, csr_name = ''x''\<rparr>, Status \<lparr>status_name = ''s'', status_size = 24\<rparr>] 8
       = Inr bank
     \<and> length (bank_simple_csrs bank) = 4 \<and> decode_bits bank = 2"
proof -
  let ?d = "[Simple \<lparr>csr_size = 8, csr_name = ''x''\<rparr>, Status \<lparr>status_name = ''s'', status_size = 24\<rparr>]"
  obtain bank where b: "GenericBank_init ?d 8 = Inr bank" and l: "length (bank_simple_csrs bank) = 4"
    by (simp add: GenericBank_init_def CSRStatus_do_finalize_def status_word_def CSR_init_def
        CSRBase_init_def Signal_def range_def reversed_def Let_def upt_rec)
  have "\<lceil>log (real 2) (real 4)\<rceil> = int 1 + 1"
    by (intro ceiling_log_nat_eq_if) simp_all
  then have "\<lceil>log 2 (real (4::nat))\<rceil> = 2" by simp
  with decode_bits_width [OF b] l have "decode_bits bank = 2" by simp
  with b l show ?thesis by blast
qed

subsection \<open>Collections\<close>

lemma same_ids_refl: "same_ids h h"
  by (simp add: same_ids_def)

lemma same_ids_trans: "same_ids h h' \<Longrightarrow> same_ids h' h'' \<Longrightarrow> same_ids h h''"
  by (simp add: same_ids_def)

lemma same_ids_key: "same_ids h h' \<Longrightarrow> (\<lambda>x. duid (h' x)) = (\<lambda>x. duid (h x))"
  by (simp add: same_ids_def)

lemma csrprefix_ids: "csrprefix p xs d h = (d', h') \<Longrightarrow> same_ids h h'"
proof (induction xs arbitrary: d h)
  case Nil then show ?case by (simp add: same_ids_refl)
next
  case (Cons x xs)
  show ?case
  proof (cases "duid (h x) \<in> d")
    case True
    with Cons show ?thesis by simp
  next
    case False
    let ?h = "h(x := (h x)\<lparr>name := p @ name (h x)\<rparr>)"
    from False Cons.prems have "csrprefix p xs (insert (duid (h x)) d) ?h = (d', h')" by simp
    from Cons.IH[OF this] have "same_ids ?h h'" .
    moreover have "same_ids h ?h" by (simp add: same_ids_def)
    ultimately show ?thesis by (rule same_ids_trans[rotated])
  qed
qed

lemma memprefix_ids: "memprefix p xs d h = (d', h') \<Longrightarrow> same_ids h h'"
proof (induction xs arbitrary: d h)
  case Nil then show ?case by (simp add: same_ids_refl)
next
  case (Cons x xs)
  show ?case
  proof (cases "duid (h x) \<in> d")
    case True
    with Cons show ?thesis by simp
  next
    case False
    let ?h = "h(x := (h x)\<lparr>name_override := p @ name_override (h x)\<rparr>)"
    from False Cons.prems have "memprefix p xs (insert (duid (h x)) d) ?h = (d', h')" by simp
    from Cons.IH[OF this] have "same_ids ?h h'" .
    moreover have "same_ids h ?h" by (simp add: same_ids_def)
    ultimately show ?thesis by (rule same_ids_trans[rotated])
  qed
qed

lemma prefix_cb_ids: "prefix_cb m p xs d h = (d', h') \<Longrightarrow> same_ids h h'"
  by (cases m) (auto dest: csrprefix_ids memprefix_ids)

lemma reach_cong:
  "same_ids h h' \<Longrightarrow> reach m h' cm = reach m h cm"
  "same_ids h h' \<Longrightarrow> reach_attrs m h' ex kvs = reach_attrs m h ex kvs"
proof (induction m h cm and m h ex kvs rule: reach_reach_attrs.induct)
  case (1 m h c kvs excl)
  then show ?case using same_ids_key[of h h'] by simp
next
  case (2 m h exclude)
  then show ?case by simp
next
  case (3 m h exclude k v rest)
  have cl: "cls_of (h' x) = cls_of (h x)" for x using "3.prems" by (simp add: same_ids_def)
  show ?case
  proof (cases v)
    case (Inst x)
    then show ?thesis using 3 cl by simp
  next
    case (Collector sub)
    then show ?thesis using 3 by simp
  next
    case Plain
    then show ?thesis using 3 by simp
  qed
qed

lemma gatherer_reach:
  "fst (gatherer m cm st) = reach m (heap st) cm
     \<and> same_ids (heap st) (heap (snd (gatherer m cm st)))"
  "fst (gather_loop m c ex kvs r st) = r @ reach_attrs m (heap st) ex kvs
     \<and> same_ids (heap st) (heap (snd (gather_loop m c ex kvs r st)))"
proof (induction m cm st and m c ex kvs r st rule: gatherer_gather_loop.induct)
  case (1 m c kvs excl st)
  define ex where "ex = (case excl of None \<Rightarrow> {} | Some e \<Rightarrow> e)"
  define st1 where "st1 = (case prefixed st c of
                   None \<Rightarrow> st\<lparr>prefixed := (prefixed st)(c := Some {})\<rparr>
                 | Some _ \<Rightarrow> st)"
  have h1: "heap st1 = heap st" by (simp add: st1_def split: option.splits)
  obtain r st2 where l: "gather_loop m c ex kvs [] st1 = (r, st2)" by force
  from "1.IH"[OF ex_def st1_def] l have
    r: "r = reach_attrs m (heap st) ex kvs" and ids: "same_ids (heap st) (heap st2)"
    by (simp_all add: h1)
  have g: "gatherer m (Component c kvs excl) st = (sort_key (\<lambda>x. duid (heap st2 x)) r, st2)"
    using l by (simp add: ex_def st1_def Let_def)
  show ?case unfolding g using r ids same_ids_key[OF ids] by (simp add: ex_def)
next
  case (2 m c exclude r st)
  then show ?case by (simp add: same_ids_refl)
next
  case (3 m c exclude k v rest r st)
  show ?case
  proof (cases "k \<in> exclude")
    case True
    then show ?thesis using "3.IH"(6) by simp
  next
    case False
    show ?thesis
    proof (cases v)
      case (Inst x)
      then show ?thesis using False "3.IH"(1,2)[of x] by (cases "cls_of (heap st x) = method_cls m") simp_all
    next
      case Plain
      then show ?thesis using False "3.IH"(5) by simp
    next
      case (Collector sub)
      obtain items st1 where g: "gatherer m sub st = (items, st1)" by force
      obtain d h where p: "prefix_cb m (k @ ''_'') items
          (case prefixed st1 c of None \<Rightarrow> {} | Some d \<Rightarrow> d) (heap st1) = (d, h)" by force
      let ?st2 = "st1\<lparr>heap := h, prefixed := (prefixed st1)(c := Some d)\<rparr>"
      from "3.IH"(3)[OF False Collector] g have
        items: "items = reach m (heap st) sub" and ids1: "same_ids (heap st) (heap st1)" by simp_all
      have ids2: "same_ids (heap st1) h" using prefix_cb_ids[OF p] .
      have ids: "same_ids (heap st) h" using same_ids_trans[OF ids1 ids2] .
      from "3.IH"(4)[OF False Collector g[symmetric] p[symmetric]] have
        rest: "fst (gather_loop m c exclude rest (r @ items) ?st2) = (r @ items) @ reach_attrs m h exclude rest"
        and ids3: "same_ids h (heap (snd (gather_loop m c exclude rest (r @ items) ?st2)))"
        by simp_all
      have step: "gather_loop m c exclude ((k, v) # rest) r st = gather_loop m c exclude rest (r @ items) ?st2"
        using False Collector g p by simp
      show ?thesis unfolding step
        using rest ids3 items reach_cong(2)[OF ids] same_ids_trans[OF ids ids3] False Collector
        by simp
    qed
  qed
qed

lemma reach_attrs_Cons:
  "reach_attrs m h ex (kv # rest) = reach_attrs m h ex [kv] @ reach_attrs m h ex rest"
  by (cases kv) simp

lemma mset_reach_attrs:
  "mset (reach_attrs m h ex kvs) = (\<Sum>kv\<in>#mset kvs. mset (reach_attrs m h ex [kv]))"
proof (induction kvs)
  case Nil then show ?case by simp
next
  case (Cons kv kvs)
  have "mset (reach_attrs m h ex (kv # kvs))
      = mset (reach_attrs m h ex [kv]) + mset (reach_attrs m h ex kvs)"
    by (subst reach_attrs_Cons) simp
  then show ?case using Cons by simp
qed

lemma reach_permuted:
  assumes "mset kvs' = mset kvs" and "inj (\<lambda>x. duid (h x))"
  shows "reach m h (Component c kvs' excl) = reach m h (Component c kvs excl)"
proof -
  let ?ex = "case excl of None \<Rightarrow> {} | Some e \<Rightarrow> e"
  let ?f = "\<lambda>x. duid (h x)"
  have "mset (reach_attrs m h ?ex kvs') = (\<Sum>kv\<in>#mset kvs'. mset (reach_attrs m h ?ex [kv]))"
    by (rule mset_reach_attrs)
  also have "\<dots> = (\<Sum>kv\<in>#mset kvs. mset (reach_attrs m h ?ex [kv]))"
    by (simp only: assms(1))
  also have "\<dots> = mset (reach_attrs m h ?ex kvs)"
    by (rule mset_reach_attrs[symmetric])
  finally have ms: "mset (reach_attrs m h ?ex kvs') = mset (reach_attrs m h ?ex kvs)" .
  have inj: "inj_on ?f (set (reach_attrs m h ?ex kvs'))"
    using assms(2) by (rule inj_on_subset) simp
  have ms': "mset (reach_attrs m h ?ex kvs') = mset (sort_key ?f (reach_attrs m h ?ex kvs))"
    using ms by simp
  have "sort_key ?f (reach_attrs m h ?ex kvs') = sort_key ?f (reach_attrs m h ?ex kvs)"
    using ms' inj by (rule sort_key_inj_key_eq) simp
  then show ?thesis by simp
qed

text \<open>
  Claim C5. The list that a collection method returns is sorted by creation-order id,
  ascending. When distinct objects have distinct ids, the ids are strictly increasing if no
  object is returned twice, and the returned list does not depend on the order in which the
  attributes of the root are enumerated: every permutation of them gives the same list.
\<close>

theorem collect_sorted_order_independent:
  assumes "gatherer m (Component c kvs excl) st = (items, st')"
  shows "sorted (map (\<lambda>x. duid (heap st' x)) items)
       \<and> (inj (\<lambda>x. duid (heap st x)) \<longrightarrow>
            (distinct items \<longrightarrow> sorted_wrt (<) (map (\<lambda>x. duid (heap st' x)) items))
          \<and> (\<forall>kvs'. mset kvs' = mset kvs \<longrightarrow>
                 fst (gatherer m (Component c kvs' excl) st) = items))"
proof -
  from gatherer_reach(1)[of m "Component c kvs excl" st] assms have
    items: "items = reach m (heap st) (Component c kvs excl)" and ids: "same_ids (heap st) (heap st')"
    by simp_all
  have key: "(\<lambda>x. duid (heap st' x)) = (\<lambda>x. duid (heap st x))" using same_ids_key[OF ids] .
  have srt: "sorted (map (\<lambda>x. duid (heap st' x)) items)"
    unfolding key items by simp
  have strict: "sorted_wrt (<) (map (\<lambda>x. duid (heap st' x)) items)"
    if "inj (\<lambda>x. duid (heap st x))" "distinct items"
  proof -
    have "inj_on (\<lambda>x. duid (heap st' x)) (set items)"
      unfolding key using that(1) by (rule inj_on_subset) simp
    then have "distinct (map (\<lambda>x. duid (heap st' x)) items)"
      using that(2) by (simp add: distinct_map)
    with srt show ?thesis by (simp add: strict_sorted_iff)
  qed
  have perm: "fst (gatherer m (Component c kvs' excl) st) = items"
    if "inj (\<lambda>x. duid (heap st x))" "mset kvs' = mset kvs" for kvs'
    using gatherer_reach(1)[of m "Component c kvs' excl" st] reach_permuted[OF that(2,1)] items
    by simp
  show ?thesis using srt strict perm by blast
qed

lemma ext_refl: "ext st st"
  by (simp add: ext_def same_ids_refl)

lemma ext_trans: "ext a b \<Longrightarrow> ext b c \<Longrightarrow> ext a c"
  unfolding ext_def using same_ids_trans by blast

lemma ext_ids: "ext st st' \<Longrightarrow> same_ids (heap st) (heap st')"
  by (simp add: ext_def)

lemma sat_mono:
  "ext st st' \<Longrightarrow> sat m st cm \<Longrightarrow> sat m st' cm"
  "ext st st' \<Longrightarrow> sat_attrs m st c ex kvs \<Longrightarrow> sat_attrs m st' c ex kvs"
proof (induction m st cm and m st c ex kvs rule: sat_sat_attrs.induct)
  case (1 m st c kvs excl)
  then show ?case by (auto simp: ext_def)
next
  case (2 m st c exclude)
  then show ?case by simp
next
  case (3 m st c exclude k v rest)
  have ids: "same_ids (heap st) (heap st')" using "3.prems"(1) by (rule ext_ids)
  have sub: "pset st c \<subseteq> pset st' c" using "3.prems"(1) by (simp add: ext_def)
  have rest: "sat_attrs m st' c exclude rest" using 3 by simp
  show ?case
  proof (cases "k \<notin> exclude")
    case False
    then show ?thesis using rest by simp
  next
    case True
    show ?thesis
    proof (cases v)
      case (Collector s)
      have a: "sat m st s" and b: "(\<lambda>x. duid (heap st x)) ` set (reach m (heap st) s) \<subseteq> pset st c"
        using "3.prems"(2) True Collector by simp_all
      have "sat m st' s" using "3.IH"(1)[OF True Collector "3.prems"(1) a] .
      moreover have "(\<lambda>x. duid (heap st' x)) ` set (reach m (heap st') s) \<subseteq> pset st' c"
      proof -
        have pt: "duid (heap st' x) = duid (heap st x)" for x using ids by (simp add: same_ids_def)
        have "(\<lambda>x. duid (heap st' x)) ` set (reach m (heap st') s)
            = (\<lambda>x. duid (heap st x)) ` set (reach m (heap st) s)"
          unfolding reach_cong(1)[OF ids, of m s] by (intro image_cong) (simp_all add: pt)
        then show ?thesis using b sub by blast
      qed
      ultimately show ?thesis using rest True Collector by simp
    qed (use rest in simp_all)
  qed
qed

lemma csrprefix_done:
  "csrprefix p xs d h = (d', h') \<Longrightarrow> d' = d \<union> (\<lambda>x. duid (h x)) ` set xs"
proof (induction xs arbitrary: d h)
  case Nil then show ?case by simp
next
  case (Cons x xs)
  show ?case
  proof (cases "duid (h x) \<in> d")
    case True
    with Cons.prems have "csrprefix p xs d h = (d', h')" by simp
    from Cons.IH[OF this] True show ?thesis by auto
  next
    case False
    let ?h = "h(x := (h x)\<lparr>name := p @ name (h x)\<rparr>)"
    from False Cons.prems have "csrprefix p xs (insert (duid (h x)) d) ?h = (d', h')" by simp
    from Cons.IH[OF this] have "d' = insert (duid (h x)) d \<union> (\<lambda>y. duid (?h y)) ` set xs" .
    moreover have "(\<lambda>y. duid (?h y)) ` set xs = (\<lambda>y. duid (h y)) ` set xs"
      by (intro image_cong) auto
    ultimately have "d' = insert (duid (h x)) d \<union> (\<lambda>y. duid (h y)) ` set xs" by simp
    then show ?thesis by auto
  qed
qed

lemma memprefix_done:
  "memprefix p xs d h = (d', h') \<Longrightarrow> d' = d \<union> (\<lambda>x. duid (h x)) ` set xs"
proof (induction xs arbitrary: d h)
  case Nil then show ?case by simp
next
  case (Cons x xs)
  show ?case
  proof (cases "duid (h x) \<in> d")
    case True
    with Cons.prems have "memprefix p xs d h = (d', h')" by simp
    from Cons.IH[OF this] True show ?thesis by auto
  next
    case False
    let ?h = "h(x := (h x)\<lparr>name_override := p @ name_override (h x)\<rparr>)"
    from False Cons.prems have "memprefix p xs (insert (duid (h x)) d) ?h = (d', h')" by simp
    from Cons.IH[OF this] have "d' = insert (duid (h x)) d \<union> (\<lambda>y. duid (?h y)) ` set xs" .
    moreover have "(\<lambda>y. duid (?h y)) ` set xs = (\<lambda>y. duid (h y)) ` set xs"
      by (intro image_cong) auto
    ultimately have "d' = insert (duid (h x)) d \<union> (\<lambda>y. duid (h y)) ` set xs" by simp
    then show ?thesis by auto
  qed
qed

lemma prefix_cb_done:
  "prefix_cb m p xs d h = (d', h') \<Longrightarrow> d' = d \<union> (\<lambda>x. duid (h x)) ` set xs"
  by (cases m) (auto dest: csrprefix_done memprefix_done)

lemma csrprefix_noop: "(\<lambda>x. duid (h x)) ` set xs \<subseteq> d \<Longrightarrow> csrprefix p xs d h = (d, h)"
  by (induction xs) auto

lemma memprefix_noop: "(\<lambda>x. duid (h x)) ` set xs \<subseteq> d \<Longrightarrow> memprefix p xs d h = (d, h)"
  by (induction xs) auto

lemma prefix_cb_noop: "(\<lambda>x. duid (h x)) ` set xs \<subseteq> d \<Longrightarrow> prefix_cb m p xs d h = (d, h)"
  by (cases m) (simp_all add: csrprefix_noop memprefix_noop)

lemma ext_init:
  "ext st (case prefixed st c of None \<Rightarrow> st\<lparr>prefixed := (prefixed st)(c := Some {})\<rparr> | Some _ \<Rightarrow> st)"
  by (cases "prefixed st c") (auto simp: ext_def same_ids_refl pset_def)

lemma ext_prefix:
  assumes "prefix_cb m p xs (pset st c) (heap st) = (d, h)"
  shows "ext st (st\<lparr>heap := h, prefixed := (prefixed st)(c := Some d)\<rparr>)"
proof -
  have "same_ids (heap st) h" using prefix_cb_ids[OF assms] .
  moreover have "pset st c \<subseteq> d" using prefix_cb_done[OF assms] by simp
  ultimately show ?thesis by (auto simp: ext_def pset_def)
qed

lemma gather_loop_Collector:
  assumes "k \<notin> exclude" "gatherer m sub st = (items, st1)"
    "prefix_cb m (k @ ''_'') items (pset st1 c) (heap st1) = (d, h)"
  shows "gather_loop m c exclude ((k, Collector sub) # rest) r st =
         gather_loop m c exclude rest (r @ items) (st1\<lparr>heap := h, prefixed := (prefixed st1)(c := Some d)\<rparr>)"
  using assms by (simp add: pset_def)

lemma gatherer_ext:
  "ext st (snd (gatherer m cm st))"
  "ext st (snd (gather_loop m c ex kvs r st))"
proof (induction m cm st and m c ex kvs r st rule: gatherer_gather_loop.induct)
  case (1 m c kvs excl st)
  define ex where "ex = (case excl of None \<Rightarrow> {} | Some e \<Rightarrow> e)"
  define st1 where "st1 = (case prefixed st c of
                   None \<Rightarrow> st\<lparr>prefixed := (prefixed st)(c := Some {})\<rparr>
                 | Some _ \<Rightarrow> st)"
  have a: "ext st st1" unfolding st1_def by (rule ext_init)
  have b: "ext st1 (snd (gather_loop m c ex kvs [] st1))" using "1.IH"[OF ex_def st1_def] .
  have "snd (gatherer m (Component c kvs excl) st) = snd (gather_loop m c ex kvs [] st1)"
    by (simp add: ex_def st1_def Let_def split: prod.splits)
  then show ?case using ext_trans[OF a b] by simp
next
  case (2 m c exclude r st)
  then show ?case by (simp add: ext_refl)
next
  case (3 m c exclude k v rest r st)
  show ?case
  proof (cases "k \<in> exclude")
    case True
    then show ?thesis using "3.IH"(6) by simp
  next
    case False
    show ?thesis
    proof (cases v)
      case (Inst x)
      then show ?thesis using False "3.IH"(1,2)[of x] by (cases "cls_of (heap st x) = method_cls m") simp_all
    next
      case Plain
      then show ?thesis using False "3.IH"(5) by simp
    next
      case (Collector sub)
      obtain items st1 where g: "gatherer m sub st = (items, st1)" by force
      obtain d h where p: "prefix_cb m (k @ ''_'') items (pset st1 c) (heap st1) = (d, h)" by force
      let ?st2 = "st1\<lparr>heap := h, prefixed := (prefixed st1)(c := Some d)\<rparr>"
      have a: "ext st st1" using "3.IH"(3)[OF False Collector] g by simp
      have b: "ext st1 ?st2" using ext_prefix[OF p] .
      have c: "ext ?st2 (snd (gather_loop m c exclude rest (r @ items) ?st2))"
        using "3.IH"(4)[OF False Collector g[symmetric]] p by (simp add: pset_def)
      show ?thesis
        unfolding Collector gather_loop_Collector[OF False g p]
        using ext_trans[OF ext_trans[OF a b] c] .
    qed
  qed
qed

lemma ext_prefixed: "ext st st' \<Longrightarrow> prefixed st c \<noteq> None \<Longrightarrow> prefixed st' c \<noteq> None"
  by (simp add: ext_def)

lemma ext_pset: "ext st st' \<Longrightarrow> pset st c \<subseteq> pset st' c"
  by (simp add: ext_def)

lemma ext_duid: "ext st st' \<Longrightarrow> duid (heap st' x) = duid (heap st x)"
  by (simp add: ext_def same_ids_def)

lemma gatherer_sat:
  "sat m (snd (gatherer m cm st)) cm"
  "prefixed st c \<noteq> None \<Longrightarrow> sat_attrs m (snd (gather_loop m c ex kvs r st)) c ex kvs"
proof (induction m cm st and m c ex kvs r st rule: gatherer_gather_loop.induct)
  case (1 m c kvs excl st)
  define ex where "ex = (case excl of None \<Rightarrow> {} | Some e \<Rightarrow> e)"
  define st1 where "st1 = (case prefixed st c of
                   None \<Rightarrow> st\<lparr>prefixed := (prefixed st)(c := Some {})\<rparr>
                 | Some _ \<Rightarrow> st)"
  let ?st2 = "snd (gather_loop m c ex kvs [] st1)"
  have p1: "prefixed st1 c \<noteq> None" by (simp add: st1_def split: option.splits)
  have a: "sat_attrs m ?st2 c ex kvs" using "1.IH"[OF ex_def st1_def p1] .
  have b: "prefixed ?st2 c \<noteq> None" using ext_prefixed[OF gatherer_ext(2) p1] .
  have "snd (gatherer m (Component c kvs excl) st) = ?st2"
    by (simp add: ex_def st1_def Let_def split: prod.splits)
  then show ?case using a b by (simp add: ex_def)
next
  case (2 m c exclude r st)
  then show ?case by simp
next
  case (3 m c exclude k v rest r st)
  show ?case
  proof (cases "k \<in> exclude")
    case True
    then show ?thesis using "3.IH"(6) "3.prems" by simp
  next
    case False
    show ?thesis
    proof (cases v)
      case (Inst x)
      then show ?thesis using False "3.IH"(1,2)[of x] "3.prems"
        by (cases "cls_of (heap st x) = method_cls m") simp_all
    next
      case Plain
      then show ?thesis using False "3.IH"(5) "3.prems" by simp
    next
      case (Collector sub)
      obtain items st1 where g: "gatherer m sub st = (items, st1)" by force
      obtain d h where p: "prefix_cb m (k @ ''_'') items (pset st1 c) (heap st1) = (d, h)" by force
      let ?st2 = "st1\<lparr>heap := h, prefixed := (prefixed st1)(c := Some d)\<rparr>"
      let ?fin = "snd (gather_loop m c exclude rest (r @ items) ?st2)"
      have step: "gather_loop m c exclude ((k, v) # rest) r st = gather_loop m c exclude rest (r @ items) ?st2"
        unfolding Collector using gather_loop_Collector[OF False g p] .
      have e01: "ext st st1" using gatherer_ext(1)[of st m sub] g by simp
      have e12: "ext st1 ?st2" using ext_prefix[OF p] .
      have e2f: "ext ?st2 ?fin" using gatherer_ext(2) .
      have e1f: "ext st1 ?fin" using ext_trans[OF e12 e2f] .
      have s1: "sat m st1 sub" using "3.IH"(3)[OF False Collector] g by simp
      have sf: "sat m ?fin sub" using sat_mono(1)[OF e1f s1] .
      have items: "items = reach m (heap st) sub" using gatherer_reach(1)[of m sub st] g by simp
      have ritems: "reach m (heap ?fin) sub = items"
        using reach_cong(1)[OF ext_ids[OF ext_trans[OF e01 e1f]], of m sub] items by simp
      have d: "d = pset st1 c \<union> (\<lambda>x. duid (heap st1 x)) ` set items" using prefix_cb_done[OF p] .
      have "pset ?st2 c = d" by (simp add: pset_def)
      then have dsub: "d \<subseteq> pset ?fin c" using ext_pset[OF e2f, of c] by simp
      have img: "(\<lambda>x. duid (heap ?fin x)) ` set (reach m (heap ?fin) sub) \<subseteq> pset ?fin c"
      proof -
        have "(\<lambda>x. duid (heap ?fin x)) ` set items = (\<lambda>x. duid (heap st1 x)) ` set items"
          by (intro image_cong) (simp_all add: ext_duid[OF e1f])
        then show ?thesis unfolding ritems using d dsub by blast
      qed
      have rest: "sat_attrs m ?fin c exclude rest"
        using "3.IH"(4)[OF False Collector g[symmetric]] p by (simp add: pset_def)
      show ?thesis unfolding step using sf img rest False Collector by simp
    qed
  qed
qed

lemma state_same:
  assumes "prefixed st c = Some d"
  shows "st\<lparr>heap := heap st, prefixed := (prefixed st)(c := Some d)\<rparr> = st"
proof -
  have "(prefixed st)(c := Some d) = prefixed st" using assms by (simp add: fun_upd_idem)
  then show ?thesis by simp
qed

lemma gatherer_fix:
  "sat m st cm \<Longrightarrow> gatherer m cm st = (reach m (heap st) cm, st)"
  "sat_attrs m st c ex kvs \<Longrightarrow> prefixed st c \<noteq> None \<Longrightarrow>
     gather_loop m c ex kvs r st = (r @ reach_attrs m (heap st) ex kvs, st)"
proof (induction m cm st and m c ex kvs r st rule: gatherer_gather_loop.induct)
  case (1 m c kvs excl st)
  define ex where "ex = (case excl of None \<Rightarrow> {} | Some e \<Rightarrow> e)"
  define st1 where "st1 = (case prefixed st c of
                   None \<Rightarrow> st\<lparr>prefixed := (prefixed st)(c := Some {})\<rparr>
                 | Some _ \<Rightarrow> st)"
  from "1.prems" have p: "prefixed st c \<noteq> None" and sa: "sat_attrs m st c ex kvs"
    by (simp_all add: ex_def)
  have st1: "st1 = st" using p by (auto simp: st1_def)
  have "gather_loop m c ex kvs [] st1 = ([] @ reach_attrs m (heap st1) ex kvs, st1)"
    using "1.IH"[OF ex_def st1_def] sa p unfolding st1 by simp
  then have "gather_loop m c ex kvs [] st1 = (reach_attrs m (heap st) ex kvs, st)"
    by (simp add: st1)
  then show ?case by (simp add: ex_def[symmetric] st1_def[symmetric] Let_def)
next
  case (2 m c exclude r st)
  then show ?case by simp
next
  case (3 m c exclude k v rest r st)
  have rest: "sat_attrs m st c exclude rest" using "3.prems"(1) by simp
  show ?case
  proof (cases "k \<in> exclude")
    case True
    then show ?thesis using "3.IH"(6) rest "3.prems"(2) by simp
  next
    case False
    show ?thesis
    proof (cases v)
      case (Inst x)
      then show ?thesis using False "3.IH"(1,2)[of x] rest "3.prems"(2)
        by (cases "cls_of (heap st x) = method_cls m") simp_all
    next
      case Plain
      then show ?thesis using False "3.IH"(5) rest "3.prems"(2) by simp
    next
      case (Collector sub)
      let ?items = "reach m (heap st) sub"
      from "3.prems"(1) False Collector have ss: "sat m st sub"
        and img: "(\<lambda>x. duid (heap st x)) ` set ?items \<subseteq> pset st c" by simp_all
      have g: "gatherer m sub st = (?items, st)" using "3.IH"(3)[OF False Collector ss] .
      have p: "prefix_cb m (k @ ''_'') ?items (pset st c) (heap st) = (pset st c, heap st)"
        using prefix_cb_noop[OF img] .
      obtain d where d: "prefixed st c = Some d" using "3.prems"(2) by auto
      then have pd: "pset st c = d" by (simp add: pset_def)
      have same: "st\<lparr>heap := heap st, prefixed := (prefixed st)(c := Some (pset st c))\<rparr> = st"
        unfolding pd using state_same[OF d] .
      have step: "gather_loop m c exclude ((k, v) # rest) r st = gather_loop m c exclude rest (r @ ?items) st"
        unfolding Collector using gather_loop_Collector[OF False g p, of rest r] same by simp
      have p': "(pset st c, heap st) = prefix_cb m (k @ ''_'') ?items
          (case prefixed st c of None \<Rightarrow> {} | Some d \<Rightarrow> d) (heap st)"
        using p by (simp add: pset_def)
      have "gather_loop m c exclude rest (r @ ?items)
              (st\<lparr>heap := heap st, prefixed := (prefixed st)(c := Some (pset st c))\<rparr>)
            = ((r @ ?items) @ reach_attrs m
                 (heap (st\<lparr>heap := heap st, prefixed := (prefixed st)(c := Some (pset st c))\<rparr>)) exclude rest,
               st\<lparr>heap := heap st, prefixed := (prefixed st)(c := Some (pset st c))\<rparr>)"
      proof (rule "3.IH"(4)[OF False Collector g[symmetric] p'])
        show "sat_attrs m (st\<lparr>heap := heap st, prefixed := (prefixed st)(c := Some (pset st c))\<rparr>) c exclude rest"
          unfolding same using rest .
        show "prefixed (st\<lparr>heap := heap st, prefixed := (prefixed st)(c := Some (pset st c))\<rparr>) c \<noteq> None"
          by simp
      qed
      then have "gather_loop m c exclude rest (r @ ?items) st
            = ((r @ ?items) @ reach_attrs m (heap st) exclude rest, st)"
        unfolding same .
      then show ?thesis unfolding step using False Collector by simp
    qed
  qed
qed

text \<open>
  Claim C6. A second call of a collection method on the same root returns the same list of
  items and leaves heap and sets \<^verbatim>\<open>__prefixed\<close> as the first call left them: no name
  changes, so the names read after the second call are those read after the first, and no
  prefix is applied twice.
\<close>

theorem collect_twice:
  assumes "gatherer m cm st = (items, st1)"
  shows "gatherer m cm st1 = (items, st1)"
proof -
  have s: "sat m st1 cm" using gatherer_sat(1)[of m cm st] assms by simp
  have "items = reach m (heap st) cm" and "same_ids (heap st) (heap st1)"
    using gatherer_reach(1)[of m cm st] assms by simp_all
  then have "reach m (heap st1) cm = items" using reach_cong(1) by simp
  then show ?thesis using gatherer_fix(1)[OF s] by simp
qed

lemma csrprefix_names:
  assumes "inj (\<lambda>x. duid (h x))" "csrprefix p xs d h = (d', h')"
  shows "h' x = (if x \<in> set xs \<and> duid (h x) \<notin> d then (h x)\<lparr>name := p @ name (h x)\<rparr> else h x)"
  using assms
proof (induction xs arbitrary: d h)
  case Nil then show ?case by simp
next
  case (Cons y xs)
  show ?case
  proof (cases "duid (h y) \<in> d")
    case True
    with Cons.prems have "csrprefix p xs d h = (d', h')" by simp
    from Cons.IH[OF Cons.prems(1) this] True show ?thesis by auto
  next
    case False
    let ?h = "h(y := (h y)\<lparr>name := p @ name (h y)\<rparr>)"
    have dh: "duid (?h z) = duid (h z)" for z by simp
    have inj': "inj (\<lambda>x. duid (?h x))" using Cons.prems(1) by (simp only: dh)
    from False Cons.prems have "csrprefix p xs (insert (duid (h y)) d) ?h = (d', h')" by simp
    from Cons.IH[OF inj' this] have
      IH: "h' x = (if x \<in> set xs \<and> duid (?h x) \<notin> insert (duid (h y)) d
                   then (?h x)\<lparr>name := p @ name (?h x)\<rparr> else ?h x)" .
    show ?thesis
    proof (cases "x = y")
      case True
      then show ?thesis using IH False by simp
    next
      case ne: False
      then have "duid (h x) \<noteq> duid (h y)" using Cons.prems(1) by (auto dest: injD)
      then show ?thesis using IH ne by simp
    qed
  qed
qed

lemma memprefix_names:
  assumes "inj (\<lambda>x. duid (h x))" "memprefix p xs d h = (d', h')"
  shows "h' x = (if x \<in> set xs \<and> duid (h x) \<notin> d
                then (h x)\<lparr>name_override := p @ name_override (h x)\<rparr> else h x)"
  using assms
proof (induction xs arbitrary: d h)
  case Nil then show ?case by simp
next
  case (Cons y xs)
  show ?case
  proof (cases "duid (h y) \<in> d")
    case True
    with Cons.prems have "memprefix p xs d h = (d', h')" by simp
    from Cons.IH[OF Cons.prems(1) this] True show ?thesis by auto
  next
    case False
    let ?h = "h(y := (h y)\<lparr>name_override := p @ name_override (h y)\<rparr>)"
    have dh: "duid (?h z) = duid (h z)" for z by simp
    have inj': "inj (\<lambda>x. duid (?h x))" using Cons.prems(1) by (simp only: dh)
    from False Cons.prems have "memprefix p xs (insert (duid (h y)) d) ?h = (d', h')" by simp
    from Cons.IH[OF inj' this] have
      IH: "h' x = (if x \<in> set xs \<and> duid (?h x) \<notin> insert (duid (h y)) d
                   then (?h x)\<lparr>name_override := p @ name_override (?h x)\<rparr> else ?h x)" .
    show ?thesis
    proof (cases "x = y")
      case True
      then show ?thesis using IH False by simp
    next
      case ne: False
      then have "duid (h x) \<noteq> duid (h y)" using Cons.prems(1) by (auto dest: injD)
      then show ?thesis using IH ne by simp
    qed
  qed
qed

lemma prefix_cb_names:
  assumes "inj (\<lambda>x. duid (h x))" "prefix_cb m p xs d h = (d', h')"
  shows "mname m (h' x) = (if x \<in> set xs \<and> duid (h x) \<notin> d then p @ mname m (h x) else mname m (h x))"
proof (cases m)
  case get_memories
  then show ?thesis using memprefix_names[OF assms(1), of p xs d d' h' x] assms(2)
    by (simp add: mname_def)
next
  case get_csrs
  then show ?thesis using csrprefix_names[OF assms(1), of p xs d d' h' x] assms(2)
    by (simp add: mname_def)
next
  case get_constants
  then show ?thesis using csrprefix_names[OF assms(1), of p xs d d' h' x] assms(2)
    by (simp add: mname_def)
qed

lemma loop_no_collectors:
  assumes "\<forall>kv\<in>set kvs. \<forall>s. snd kv \<noteq> Collector s"
  shows "gather_loop m c ex kvs r st = (r @ reach_attrs m (heap st) ex kvs, st)"
  using assms
proof (induction kvs arbitrary: r)
  case Nil then show ?case by simp
next
  case (Cons kv kvs)
  obtain k v where kv: "kv = (k, v)" by (cases kv)
  have nc: "\<And>s. v \<noteq> Collector s" using Cons.prems kv by auto
  have IH: "gather_loop m c ex kvs r' st = (r' @ reach_attrs m (heap st) ex kvs, st)" for r'
    using Cons.IH Cons.prems by simp
  show ?case
  proof (cases v)
    case (Collector s)
    then show ?thesis using nc by simp
  qed (simp_all add: kv IH)
qed

lemma gather_loop_append:
  "gather_loop m c ex (xs @ ys) r st =
     (case gather_loop m c ex xs r st of (r1, st1) \<Rightarrow> gather_loop m c ex ys r1 st1)"
proof (induction xs arbitrary: r st)
  case Nil then show ?case by simp
next
  case (Cons kv xs)
  obtain k v where kv: "kv = (k, v)" by (cases kv)
  show ?case unfolding kv using Cons.IH
    by (cases v) (simp_all split: prod.splits)
qed

lemma inj_ext: "ext st st' \<Longrightarrow> inj (\<lambda>x. duid (heap st x)) \<Longrightarrow> inj (\<lambda>x. duid (heap st' x))"
  using same_ids_key[OF ext_ids] by simp

lemma gatherer_names:
  "inj (\<lambda>x. duid (heap st x)) \<Longrightarrow>
     \<exists>q. mname m (heap (snd (gatherer m cm st)) x) = q @ mname m (heap st x)"
  "inj (\<lambda>x. duid (heap st x)) \<Longrightarrow>
     \<exists>q. mname m (heap (snd (gather_loop m c ex kvs r st)) x) = q @ mname m (heap st x)"
proof (induction m cm st and m c ex kvs r st rule: gatherer_gather_loop.induct)
  case (1 m c kvs excl st)
  define ex where "ex = (case excl of None \<Rightarrow> {} | Some e \<Rightarrow> e)"
  define st1 where "st1 = (case prefixed st c of
                   None \<Rightarrow> st\<lparr>prefixed := (prefixed st)(c := Some {})\<rparr>
                 | Some _ \<Rightarrow> st)"
  have h: "heap st1 = heap st" by (simp add: st1_def split: option.splits)
  have i1: "inj (\<lambda>x. duid (heap st1 x))" using "1.prems" by (simp add: h)
  have "snd (gatherer m (Component c kvs excl) st) = snd (gather_loop m c ex kvs [] st1)"
    by (simp add: ex_def st1_def Let_def split: prod.splits)
  then show ?case using "1.IH"[OF ex_def st1_def i1] by (simp add: h)
next
  case (2 m c exclude r st)
  then show ?case by simp
next
  case (3 m c exclude k v rest r st)
  show ?case
  proof (cases "k \<in> exclude")
    case True
    then show ?thesis using "3.IH"(6) "3.prems" by simp
  next
    case False
    show ?thesis
    proof (cases v)
      case (Inst y)
      then show ?thesis using False "3.IH"(1,2)[of y] "3.prems"
        by (cases "cls_of (heap st y) = method_cls m") simp_all
    next
      case Plain
      then show ?thesis using False "3.IH"(5) "3.prems" by simp
    next
      case (Collector sub)
      obtain items st1 where g: "gatherer m sub st = (items, st1)" by force
      obtain d h where p: "prefix_cb m (k @ ''_'') items (pset st1 c) (heap st1) = (d, h)" by force
      let ?st2 = "st1\<lparr>heap := h, prefixed := (prefixed st1)(c := Some d)\<rparr>"
      have e1: "ext st st1" using gatherer_ext(1)[of st m sub] g by simp
      have i1: "inj (\<lambda>x. duid (heap st1 x))" using inj_ext[OF e1 "3.prems"] .
      have i2: "inj (\<lambda>x. duid (heap ?st2 x))" using inj_ext[OF ext_prefix[OF p] i1] .
      from "3.IH"(3)[OF False Collector "3.prems"] g
      obtain q1 where q1: "mname m (heap st1 x) = q1 @ mname m (heap st x)" by auto
      from prefix_cb_names[OF i1 p, of x]
      obtain q2 where q2: "mname m (h x) = q2 @ mname m (heap st1 x)"
        by (cases "x \<in> set items \<and> duid (heap st1 x) \<notin> pset st1 c") auto
      have p': "(d, h) = prefix_cb m (k @ ''_'') items
                  (case prefixed st1 c of None \<Rightarrow> {} | Some d \<Rightarrow> d) (heap st1)"
        using p by (simp add: pset_def)
      have "\<exists>q. mname m (heap (snd (gather_loop m c exclude rest (r @ items) ?st2)) x)
              = q @ mname m (heap ?st2 x)"
        using "3.IH"(4)[OF False Collector g[symmetric] p' i2] .
      then obtain q3 where
        q3: "mname m (heap (snd (gather_loop m c exclude rest (r @ items) ?st2)) x)
              = q3 @ mname m (heap ?st2 x)" ..
      have "mname m (heap (snd (gather_loop m c exclude rest (r @ items) ?st2)) x)
          = (q3 @ q2 @ q1) @ mname m (heap st x)"
        using q1 q2 q3 by simp
      then show ?thesis
        unfolding Collector gather_loop_Collector[OF False g p] by (rule exI)
    qed
  qed
qed

text \<open>
  Claim C10. A root with a nested collector under an attribute \<open>k\<close> that is not excluded,
  among any other attributes, collectors or not; distinct objects have distinct ids. The
  collection from the root has run the attributes before \<open>k\<close>, then collected from the
  nested component, then prefixed. After the collection from the root, the items of the
  nested component are in the returned list, and the nested component itself reports the
  same items in the final heap, where every such item that the root had not prefixed before
  carries the prefix \<open>k_\<close> in front of the name it had after the nested collection, with
  at most further prefixes in front of it: the rename is in the shared heap and stays.
  When no collector follows \<open>k\<close>, the final names are exactly these, and all other names
  are as the nested collection left them.
\<close>

theorem prefix_renames_in_place:
  fixes st :: state and c :: nat
  defines "st0 \<equiv> (case prefixed st c of
                        None \<Rightarrow> st\<lparr>prefixed := (prefixed st)(c := Some {})\<rparr>
                      | Some _ \<Rightarrow> st)"
  assumes inj: "inj (\<lambda>x. duid (heap st x))"
    and k: "k \<notin> (case excl of None \<Rightarrow> {} | Some e \<Rightarrow> e)"
    and before: "gather_loop m c (case excl of None \<Rightarrow> {} | Some e \<Rightarrow> e) pre [] st0 = (r_pre, st_a)"
    and sub: "gatherer m sub st_a = (sub_items, st1)"
    and root: "gatherer m (Component c (pre @ (k, Collector sub) # post) excl) st = (items, st')"
  shows "set sub_items \<subseteq> set items
       \<and> gatherer m sub st' = (sub_items, st')
       \<and> (\<forall>x\<in>set sub_items. duid (heap st1 x) \<notin> pset st1 c \<longrightarrow>
             (\<exists>q. mname m (heap st' x) = q @ (k @ ''_'') @ mname m (heap st1 x)))
       \<and> ((\<forall>kv\<in>set post. \<forall>s. snd kv \<noteq> Collector s) \<longrightarrow>
             (\<forall>x. mname m (heap st' x) =
                (if x \<in> set sub_items \<and> duid (heap st1 x) \<notin> pset st1 c
                 then (k @ ''_'') @ mname m (heap st1 x) else mname m (heap st1 x))))"
proof -
  define ex where "ex = (case excl of None \<Rightarrow> {} | Some e \<Rightarrow> e)"
  have kex: "k \<notin> ex" using k by (simp add: ex_def)
  have l1: "gather_loop m c ex pre [] st0 = (r_pre, st_a)" using before by (simp add: ex_def)
  have h0: "heap st0 = heap st" by (simp add: st0_def split: option.splits)
  obtain d h where p: "prefix_cb m (k @ ''_'') sub_items (pset st1 c) (heap st1) = (d, h)" by force
  define st2 where "st2 = st1\<lparr>heap := h, prefixed := (prefixed st1)(c := Some d)\<rparr>"
  have h2: "heap st2 = h" by (simp add: st2_def)
  define fin where "fin = gather_loop m c ex post (r_pre @ sub_items) st2"
  have l2: "gather_loop m c ex ((k, Collector sub) # post) r_pre st_a = fin"
    unfolding fin_def st2_def using gather_loop_Collector[OF kex sub p] .
  have loop: "gather_loop m c ex (pre @ (k, Collector sub) # post) [] st0 = fin"
    unfolding gather_loop_append l1 using l2 by simp
  have res: "gatherer m (Component c (pre @ (k, Collector sub) # post) excl) st
      = (sort_key (\<lambda>x. duid (heap (snd fin) x)) (fst fin), snd fin)"
    using loop by (simp add: ex_def[symmetric] st0_def[symmetric] Let_def split: prod.splits)
  from trans[OF res[symmetric] root] have st': "st' = snd fin"
    and items: "items = sort_key (\<lambda>x. duid (heap (snd fin) x)) (fst fin)"
    by auto
  have "fst fin = (r_pre @ sub_items) @ reach_attrs m (heap st2) ex post"
    unfolding fin_def using gatherer_reach(2)[of m c ex post "r_pre @ sub_items" st2] by simp
  then have 1: "set sub_items \<subseteq> set items" unfolding items by auto
  have e0a: "ext st0 st_a" using gatherer_ext(2)[of st0 m c ex pre "[]"] l1 by simp
  have ea1: "ext st_a st1" using gatherer_ext(1)[of st_a m sub] sub by simp
  have e12: "ext st1 st2" unfolding st2_def using ext_prefix[OF p] .
  have e2f: "ext st2 st'"
    unfolding st' fin_def using gatherer_ext(2)[of st2 m c ex post "r_pre @ sub_items"] .
  have si: "sub_items = reach m (heap st_a) sub"
    using gatherer_reach(1)[of m sub st_a] sub by simp
  have s1: "sat m st1 sub" using gatherer_sat(1)[of m sub st_a] sub by simp
  have sf: "sat m st' sub" using sat_mono(1)[OF ext_trans[OF e12 e2f] s1] .
  have "same_ids (heap st_a) (heap st')"
    using ext_ids[OF ext_trans[OF ea1 ext_trans[OF e12 e2f]]] .
  then have "reach m (heap st') sub = sub_items"
    using reach_cong(1)[of "heap st_a" "heap st'" m sub] si by simp
  then have 2: "gatherer m sub st' = (sub_items, st')"
    using gatherer_fix(1)[OF sf] by simp
  have inj0: "inj (\<lambda>x. duid (heap st0 x))" using inj by (simp add: h0)
  have inj1: "inj (\<lambda>x. duid (heap st1 x))"
    using inj_ext[OF ext_trans[OF e0a ea1] inj0] .
  have inj2: "inj (\<lambda>x. duid (heap st2 x))" using inj_ext[OF e12 inj1] .
  have nm2: "mname m (heap st2 x) =
              (if x \<in> set sub_items \<and> duid (heap st1 x) \<notin> pset st1 c
               then (k @ ''_'') @ mname m (heap st1 x) else mname m (heap st1 x))" for x
    unfolding h2 using prefix_cb_names[OF inj1 p] .
  have 3: "\<forall>x\<in>set sub_items. duid (heap st1 x) \<notin> pset st1 c \<longrightarrow>
             (\<exists>q. mname m (heap st' x) = q @ (k @ ''_'') @ mname m (heap st1 x))"
  proof (intro ballI impI)
    fix x assume x: "x \<in> set sub_items" "duid (heap st1 x) \<notin> pset st1 c"
    from gatherer_names(2)[OF inj2, of m c ex post "r_pre @ sub_items" x]
    obtain q where "mname m (heap st' x) = q @ mname m (heap st2 x)"
      unfolding st' fin_def by blast
    then have "mname m (heap st' x) = q @ (k @ ''_'') @ mname m (heap st1 x)"
      using nm2[of x] x by simp
    then show "\<exists>q. mname m (heap st' x) = q @ (k @ ''_'') @ mname m (heap st1 x)" ..
  qed
  have 4: "(\<forall>kv\<in>set post. \<forall>s. snd kv \<noteq> Collector s) \<longrightarrow>
             (\<forall>x. mname m (heap st' x) =
                (if x \<in> set sub_items \<and> duid (heap st1 x) \<notin> pset st1 c
                 then (k @ ''_'') @ mname m (heap st1 x) else mname m (heap st1 x)))"
  proof (intro impI allI)
    fix x assume "\<forall>kv\<in>set post. \<forall>s. snd kv \<noteq> Collector s"
    from loop_no_collectors[OF this, of m c ex "r_pre @ sub_items" st2]
    have "st' = st2" unfolding st' fin_def by simp
    then show "mname m (heap st' x) =
                (if x \<in> set sub_items \<and> duid (heap st1 x) \<notin> pset st1 c
                 then (k @ ''_'') @ mname m (heap st1 x) else mname m (heap st1 x))"
      using nm2[of x] by simp
  qed
  from 1 2 3 4 show ?thesis by blast
qed

lemma ex_inj: "inj (\<lambda>x. duid (heap example_state x))"
  by (simp add: example_state_def example_heap_def)

lemma ex_reach: "reach get_csrs example_heap example_root = [1, 2, 3]"
  by (simp add: example_root_def example_A_def example_B_def example_heap_def)

lemma ex_A: "fst (gatherer get_csrs example_A example_state) = [1, 3]"
  by (simp add: example_A_def example_state_def example_heap_def)

lemma ex_root_names:
  "map (\<lambda>x. name (heap (snd (gatherer get_csrs example_root example_state)) x))
     (fst (gatherer get_csrs example_root example_state)) = [''a_r'', ''b_r'', ''a_r'']"
  by (simp add: example_root_def example_A_def example_B_def example_state_def example_heap_def)

theorem collect_sorted_order_independent_witness:
  "inj (\<lambda>x. duid (heap example_state x))
   \<and> fst (gatherer get_csrs
          (Component 12 [(''a'', Collector example_A), (''b'', Collector example_B)] None)
          example_state) = [1, 2, 3]
   \<and> fst (gatherer get_csrs
          (Component 12 [(''b'', Collector example_B), (''a'', Collector example_A)] None)
          example_state) = [1, 2, 3]"
proof -
  let ?kvs = "[(''a'', Collector example_A), (''b'', Collector example_B)]"
  let ?kvs' = "[(''b'', Collector example_B), (''a'', Collector example_A)]"
  let ?g = "gatherer get_csrs (Component 12 ?kvs None) example_state"
  have r: "?g = (fst ?g, snd ?g)" by simp
  have v: "fst ?g = [1, 2, 3]"
    by (simp add: example_A_def example_B_def example_state_def example_heap_def)
  have p: "mset ?kvs' = mset ?kvs" by simp
  from collect_sorted_order_independent [OF r] ex_inj p
  have "fst (gatherer get_csrs (Component 12 ?kvs' None) example_state) = fst ?g" by blast
  with v ex_inj show ?thesis by simp
qed

theorem collect_twice_witness:
  "gatherer get_csrs example_root (snd (gatherer get_csrs example_root example_state))
     = gatherer get_csrs example_root example_state
   \<and> map (\<lambda>x. name (heap (snd (gatherer get_csrs example_root
                 (snd (gatherer get_csrs example_root example_state)))) x))
       (fst (gatherer get_csrs example_root
                 (snd (gatherer get_csrs example_root example_state))))
     = [''a_r'', ''b_r'', ''a_r'']"
proof -
  let ?g = "gatherer get_csrs example_root example_state"
  have r: "?g = (fst ?g, snd ?g)" by simp
  from collect_twice [OF r] have t: "gatherer get_csrs example_root (snd ?g) = ?g" by simp
  show ?thesis unfolding t using ex_root_names by simp
qed

theorem prefix_renames_in_place_witness:
  "inj (\<lambda>x. duid (heap example_state x))
   \<and> fst (gatherer get_csrs example_B
          (snd (gatherer get_csrs
             (Component 12 ([(''a'', Collector example_A)] @ (''b'', Collector example_B) # []) None)
             example_state))) = [2]
   \<and> mname get_csrs (heap (snd (gatherer get_csrs
             (Component 12 ([(''a'', Collector example_A)] @ (''b'', Collector example_B) # []) None)
             example_state)) 2) = ''b_r''
   \<and> mname get_csrs (heap (snd (gatherer get_csrs
             (Component 12 ([(''a'', Collector example_A)] @ (''b'', Collector example_B) # []) None)
             example_state)) 3) = ''a_r''"
proof -
  let ?R = "Component 12 ([(''a'', Collector example_A)] @ (''b'', Collector example_B) # []) None"
  let ?st0 = "case prefixed example_state 12 of
                None \<Rightarrow> example_state\<lparr>prefixed := (prefixed example_state)(12 := Some {})\<rparr>
              | Some _ \<Rightarrow> example_state"
  let ?gp = "gather_loop get_csrs 12 (case None of None \<Rightarrow> {} | Some e \<Rightarrow> e)
               [(''a'', Collector example_A)] [] ?st0"
  let ?gs = "gatherer get_csrs example_B (snd ?gp)"
  let ?gr = "gatherer get_csrs ?R example_state"
  have k: "''b'' \<notin> (case None of None \<Rightarrow> {} | Some e \<Rightarrow> e)" by simp
  have b: "?gp = (fst ?gp, snd ?gp)" by (rule prod.collapse[symmetric])
  have s: "?gs = (fst ?gs, snd ?gs)" by (rule prod.collapse[symmetric])
  have r: "?gr = (fst ?gr, snd ?gr)" by (rule prod.collapse[symmetric])
  have o: "\<forall>kv\<in>set ([]::(string \<times> obj) list). \<forall>s. snd kv \<noteq> Collector s" by simp
  have v: "fst ?gs = [2]" "duid (heap (snd ?gs) 2) \<notin> pset (snd ?gs) 12"
    "mname get_csrs (heap (snd ?gs) 2) = ''r''" "mname get_csrs (heap (snd ?gs) 3) = ''a_r''"
    by (simp_all add: example_A_def example_B_def example_state_def example_heap_def
        pset_def mname_def)
  from prefix_renames_in_place [OF ex_inj k b s r] o
  have a: "gatherer get_csrs example_B (snd ?gr) = (fst ?gs, snd ?gr)"
    and n: "\<And>x. mname get_csrs (heap (snd ?gr) x) =
              (if x \<in> set (fst ?gs) \<and> duid (heap (snd ?gs) x) \<notin> pset (snd ?gs) 12
               then (''b'' @ ''_'') @ mname get_csrs (heap (snd ?gs) x)
               else mname get_csrs (heap (snd ?gs) x))"
    by blast+
  have "fst (gatherer get_csrs example_B (snd ?gr)) = [2]" unfolding a using v(1) by simp
  moreover have "mname get_csrs (heap (snd ?gr) 2) = ''b_r''" unfolding n[of 2] using v by simp
  moreover have "mname get_csrs (heap (snd ?gr) 3) = ''a_r''" unfolding n[of 3] using v by simp
  ultimately show ?thesis using ex_inj by blast
qed

end
